theory Spec2Isabelle
  imports Main "HOL-Library.Word"
begin

section \<open>Values of the server\<close>

text \<open>
  An object id is a C \<open>int\<close>; the sentinel \<open>NOTHING\<close> is \<open>-1\<close>.  No arithmetic is
  done on ids here apart from comparing them with the table size, so they are modelled
  as \<open>int\<close>.
\<close>

type_synonym Objid = int

definition NOTHING :: Objid where
  "NOTHING = -1"

text \<open>The error codes of \<open>enum error\<close> that the code under study raises.\<close>

datatype moo_error = E_NONE | E_INVARG | E_ARGS | E_EXEC

text \<open>
  \<open>Var\<close> is the tagged union of the value system: the constructor is the \<open>type\<close> tag
  (\<open>TYPE_INT\<close>, \<open>TYPE_OBJ\<close>, \<open>TYPE_STR\<close>, \<open>TYPE_ERR\<close>, \<open>TYPE_LIST\<close>), the argument the
  member of the union \<open>v\<close>.  A list value holds its elements in order (the C array keeps
  the length in slot 0 and the elements in slots 1..n).
\<close>

datatype Var =
    VInt int
  | VObj Objid
  | VStr string
  | VErr moo_error
  | VList "Var list"

definition zero :: Var where
  "zero = VInt 0"

section \<open>exec.c: the exec built-in\<close>

text \<open>The waiter record \<open>tasks_waiting_on_exec\<close> (the suspended vm is left out).\<close>

record tasks_waiting_on_exec =
  tw_p :: int
  tw_in :: int
  tw_out :: int
  tw_err :: int

text \<open>
  A \<open>package\<close> is what a built-in returns: \<open>make_error_pack\<close>, \<open>make_raise_pack\<close> with
  its message and value, \<open>make_suspend_pack\<close> with the waiter, \<open>no_var_pack\<close>.
\<close>

datatype package =
    ErrorPack moo_error
  | RaisePack moo_error string Var
  | SuspendPack tasks_waiting_on_exec
  | NoVarPack

text \<open>
  What the process running \<open>bf_exec\<close> ends with: it returns a package to the
  interpreter, or (in the forked child) it calls \<open>exit\<close>, or \<open>execve\<close> replaces it.
\<close>

datatype exec_outcome =
    Return package
  | ChildExit int
  | ChildExecve string "string list" "string list"

text \<open>The system calls of \<open>bf_exec\<close> that touch descriptors, in the order made.\<close>

datatype fd_event = Close int | Dup2 int int

text \<open>
  The operating system as \<open>bf_exec\<close> sees it: the constant \<open>BIN_SUBDIR\<close> (declared
  outside this file), whether \<open>stat\<close> succeeds on a path, the result of each of the three
  \<open>pipe\<close> calls (\<open>None\<close> when the call returns a negative number, else the two
  descriptors), the value of \<open>fork\<close>, of each \<open>dup2\<close>, and of a returning \<open>execve\<close>.
\<close>

record exec_env =
  BIN_SUBDIR :: string
  stat_ok :: "string \<Rightarrow> bool"
  pipeIn :: "(int \<times> int) option"
  pipeOut :: "(int \<times> int) option"
  pipeErr :: "(int \<times> int) option"
  fork_res :: int
  dup2_res :: "int \<Rightarrow> int \<Rightarrow> int"
  execve_res :: int

text \<open>
  \<open>strstr(haystack, needle)\<close>: the offset of the first occurrence of the needle, or
  \<open>None\<close> for the null pointer.
\<close>

fun is_prefix :: "string \<Rightarrow> string \<Rightarrow> bool" where
  "is_prefix [] ys = True"
| "is_prefix (x # xs) [] = False"
| "is_prefix (x # xs) (y # ys) = (x = y \<and> is_prefix xs ys)"

fun strstr :: "string \<Rightarrow> string \<Rightarrow> nat option" where
  "strstr [] needle = (if needle = [] then Some 0 else None)"
| "strstr (c # cs) needle =
     (if is_prefix needle (c # cs) then Some 0
      else map_option Suc (strstr cs needle))"

fun is_str :: "Var \<Rightarrow> bool" where
  "is_str (VStr s) = True"
| "is_str _ = False"

fun str_of :: "Var \<Rightarrow> string" where
  "str_of (VStr s) = s"
| "str_of _ = []"

text \<open>
  The first loop of \<open>bf_exec\<close>: it walks the argument list and returns at the first
  element that is not a string.
\<close>

fun all_strings :: "Var list \<Rightarrow> bool" where
  "all_strings [] = True"
| "all_strings (a # as) = (if \<not> is_str a then False else all_strings as)"

text \<open>The path handed to \<open>stat\<close> and \<open>execve\<close>: \<open>BIN_SUBDIR\<close>, then the command without
  one leading slash.\<close>

definition resolve_cmd :: "string \<Rightarrow> string \<Rightarrow> string" where
  "resolve_cmd bin cmd =
     bin @ (if cmd \<noteq> [] \<and> hd cmd = CHR ''/'' then tl cmd else cmd)"

text \<open>
  The forked child: three \<open>dup2\<close> calls, each of which exits with its status when
  negative, three \<open>close\<close> calls, then \<open>execve\<close> with the fixed environment.
\<close>

definition exec_child ::
  "exec_env \<Rightarrow> string \<Rightarrow> string list \<Rightarrow> int \<times> int \<Rightarrow> int \<times> int \<Rightarrow> int \<times> int
    \<Rightarrow> exec_outcome \<times> fd_event list" where
  "exec_child env cmd args pin pout perr =
     (if dup2_res env (fst pin) 0 < 0
      then (ChildExit (dup2_res env (fst pin) 0), [Dup2 (fst pin) 0])
      else if dup2_res env (snd pout) 1 < 0
      then (ChildExit (dup2_res env (snd pout) 1), [Dup2 (fst pin) 0, Dup2 (snd pout) 1])
      else if dup2_res env (snd perr) 2 < 0
      then (ChildExit (dup2_res env (snd perr) 2),
            [Dup2 (fst pin) 0, Dup2 (snd pout) 1, Dup2 (snd perr) 2])
      else (if execve_res env = 0
            then ChildExecve cmd args [''PATH=/bin:/usr/bin'']
            else ChildExit (execve_res env),
            [Dup2 (fst pin) 0, Dup2 (snd pout) 1, Dup2 (snd perr) 2,
             Close (snd pin), Close (fst pout), Close (fst perr)]))"

text \<open>
  \<open>bf_exec\<close>, in the order of the source: the type check of every argument, the empty
  list, the two path checks, \<open>stat\<close>, the three pipes, \<open>fork\<close>.  The result comes with
  the descriptor calls made on the way.
\<close>

definition bf_exec :: "exec_env \<Rightarrow> Var list \<Rightarrow> exec_outcome \<times> fd_event list" where
  "bf_exec env arglist =
     (if \<not> all_strings arglist then (Return (ErrorPack E_INVARG), [])
      else if arglist = [] then (Return (ErrorPack E_ARGS), [])
      else
        let cmd = str_of (hd arglist) in
        if 1 < length cmd \<and> cmd ! 0 = CHR ''.'' \<and> cmd ! 1 = CHR ''.''
        then (Return (RaisePack E_INVARG ''Invalid path'' zero), [])
        else if strstr cmd ''/.'' \<noteq> None
        then (Return (RaisePack E_INVARG ''Invalid path'' zero), [])
        else
          let path = resolve_cmd (BIN_SUBDIR env) cmd in
          if \<not> stat_ok env path
          then (Return (RaisePack E_INVARG ''Does not exist'' zero), [])
          else
            let args = path # map str_of (tl arglist) in
            case pipeIn env of
              None \<Rightarrow> (Return (RaisePack E_EXEC ''Exec failed'' zero), [])
            | Some pin \<Rightarrow>
               (case pipeOut env of
                  None \<Rightarrow> (Return (RaisePack E_EXEC ''Exec failed'' zero),
                            [Close (fst pin), Close (snd pin)])
                | Some pout \<Rightarrow>
                   (case pipeErr env of
                      None \<Rightarrow> (Return (RaisePack E_EXEC ''Exec failed'' zero),
                                [Close (fst pin), Close (snd pin),
                                 Close (fst pout), Close (snd pout)])
                    | Some perr \<Rightarrow>
                       (if fork_res env < 0
                        then (Return (RaisePack E_EXEC ''Exec failed'' zero),
                              [Close (fst pin), Close (snd pin),
                               Close (fst pout), Close (snd pout),
                               Close (fst perr), Close (snd perr)])
                        else if fork_res env = 0
                        then exec_child env path args pin pout perr
                        else (Return (SuspendPack
                                \<lparr>tw_p = fork_res env, tw_in = snd pin,
                                 tw_out = fst pout, tw_err = fst perr\<rparr>),
                              [Close (fst pin), Close (snd pout), Close (snd perr)])))))"

text \<open>
  The descriptors allocated when the first \<open>pipe\<close> call fails (or, when all three
  succeed, at the \<open>fork\<close>): both ends of every pipe created before, in the order of
  creation.
\<close>

definition allocated_fds :: "exec_env \<Rightarrow> int list" where
  "allocated_fds env =
     concat (map (\<lambda>p. case p of None \<Rightarrow> [] | Some (a, b) \<Rightarrow> [a, b])
       (takeWhile (\<lambda>p. p \<noteq> None) [pipeIn env, pipeOut env, pipeErr env]))"

subsection \<open>exec_completed\<close>

text \<open>
  \<open>read(fd, buffer, count)\<close> on a pipe: \<open>-1\<close> on an error, else the number of bytes
  moved into the buffer, at most \<open>count\<close>.  A pipe is the bytes waiting in it, or \<open>None\<close>
  when reading it fails.
\<close>

type_synonym pipes = "int \<Rightarrow> string option"

definition sys_read :: "pipes \<Rightarrow> int \<Rightarrow> string \<Rightarrow> nat \<Rightarrow> int \<times> string" where
  "sys_read ps fd buffer count =
     (case ps fd of
        None \<Rightarrow> (-1, buffer)
      | Some bytes \<Rightarrow>
          (int (min count (length bytes)),
           take count bytes @ drop (min count (length bytes)) buffer))"

datatype exec_fault = BufferIndex int

text \<open>The store \<open>buffer[n] = '\0'\<close> into \<open>char buffer[1000]\<close>; an index outside the
  array is a fault.\<close>

definition buffer_set_nul :: "string \<Rightarrow> int \<Rightarrow> exec_fault + string" where
  "buffer_set_nul buffer n =
     (if 0 \<le> n \<and> n < int (length buffer) then Inr (buffer[nat n := CHR 0x00])
      else Inl (BufferIndex n))"

text \<open>\<open>str_dup\<close> copies up to the first NUL.\<close>

definition str_dup :: "string \<Rightarrow> string" where
  "str_dup buffer = takeWhile (\<lambda>c. c \<noteq> CHR 0x00) buffer"

text \<open>
  \<open>exec_completed\<close>: the waiter of the process is looked up; the two reads fill the
  same 1000-byte buffer, and the result is the list of the exit code and the two
  strings, together with the waiter table without the entry and the descriptors closed.
  \<open>None\<close> stands for the return value 0 (no waiter for this process).
\<close>

definition exec_completed ::
  "(int \<rightharpoonup> tasks_waiting_on_exec) \<Rightarrow> pipes \<Rightarrow> string \<Rightarrow> int \<Rightarrow> int
    \<Rightarrow> exec_fault + (int \<times> Var \<times> (int \<rightharpoonup> tasks_waiting_on_exec) \<times> fd_event list) option" where
  "exec_completed exec_waiters ps buffer0 p code =
     (case exec_waiters p of
        None \<Rightarrow> Inr None
      | Some tw \<Rightarrow>
          (let (n, buffer1) = sys_read ps (tw_out tw) buffer0 (length buffer0) in
           case buffer_set_nul buffer1 n of
             Inl e \<Rightarrow> Inl e
           | Inr buffer2 \<Rightarrow>
               (let out = str_dup buffer2;
                    (n', buffer3) = sys_read ps (tw_err tw) buffer2 (length buffer2) in
                case buffer_set_nul buffer3 n' of
                  Inl e \<Rightarrow> Inl e
                | Inr buffer4 \<Rightarrow>
                    Inr (Some (p, VList [VInt code, VStr out, VStr (str_dup buffer4)],
                               exec_waiters(p := None),
                               [Close (tw_in tw), Close (tw_out tw), Close (tw_err tw)])))))"

section \<open>db_file.c: dumping the database\<close>

datatype Dump_Reason = DUMP_SHUTDOWN | DUMP_CHECKPOINT | DUMP_PANIC

fun reason_names :: "Dump_Reason \<Rightarrow> string" where
  "reason_names DUMP_SHUTDOWN = ''DUMPING''"
| "reason_names DUMP_CHECKPOINT = ''CHECKPOINTING''"
| "reason_names DUMP_PANIC = ''PANIC-DUMPING''"

text \<open>The three values of \<open>fork_server\<close>.\<close>

datatype Fork_Result = FORK_PARENT | FORK_ERROR | FORK_CHILD

text \<open>
  The calls of \<open>dump_database\<close> that act on the world outside the process, in the order
  made.  \<open>Fopen name ok\<close> is \<open>fopen(name, "w")\<close> and whether it gave a stream;
  \<open>WriteDb name ok bytes\<close> is the run of \<open>write_db_file\<close> on the stream of \<open>name\<close>,
  the bytes it got into the file and whether it returned 1; \<open>Rename a b ok\<close> is
  \<open>rename(a, b)\<close> and whether it returned 0.
\<close>

datatype dump_event =
    Remove string
  | Fopen string bool
  | WriteDb string bool string
  | Fflush string
  | Fsync string
  | Fclose string
  | Rename string string bool
  | TimerSleep nat
  | Oklog string
  | Errlog string
  | LogPerror string
  | ForkServer Fork_Result
  | ResetCommandHistory
  | SetServerCmdline string
  | Exit int

text \<open>A file system: the content of each path that exists.\<close>

type_synonym files = "string \<rightharpoonup> string"

fun apply_event :: "dump_event \<Rightarrow> files \<Rightarrow> files" where
  "apply_event (Remove n) fs = fs(n := None)"
| "apply_event (Fopen n ok) fs = (if ok then fs(n \<mapsto> []) else fs)"
| "apply_event (WriteDb n ok bytes) fs = fs(n \<mapsto> bytes)"
| "apply_event (Rename a b ok) fs = (if ok then (fs(b := fs a))(a := None) else fs)"
| "apply_event _ fs = fs"

text \<open>The files after a sequence of calls, every \<open>remove\<close> taking effect.\<close>

definition run_events :: "dump_event list \<Rightarrow> files \<Rightarrow> files" where
  "run_events evs fs = fold apply_event evs fs"

text \<open>
  The same when \<open>remove\<close> may fail: \<open>rm_ok n\<close> tells whether \<open>remove\<close> of the path
  \<open>n\<close> takes effect.  \<open>dump_database\<close> never looks at the result of \<open>remove\<close>, so the
  calls made are the same in both cases; a \<open>remove\<close> that fails leaves the files as they
  are.
\<close>

fun apply_event_rm :: "(string \<Rightarrow> bool) \<Rightarrow> dump_event \<Rightarrow> files \<Rightarrow> files" where
  "apply_event_rm rm_ok (Remove n) fs = (if rm_ok n then fs(n := None) else fs)"
| "apply_event_rm rm_ok e fs = apply_event e fs"

definition run_events_rm :: "(string \<Rightarrow> bool) \<Rightarrow> dump_event list \<Rightarrow> files \<Rightarrow> files" where
  "run_events_rm rm_ok evs fs = fold (apply_event_rm rm_ok) evs fs"

text \<open>\<open>%d\<close> of a non-negative number.\<close>

fun decimal :: "nat \<Rightarrow> string" where
  "decimal n =
     (if n < 10 then [''0123456789'' ! n]
      else decimal (n div 10) @ [''0123456789'' ! (n mod 10)])"

text \<open>The name \<open>"%s.#%d#"\<close> of the temporary file of a generation.\<close>

definition generation_name :: "string \<Rightarrow> nat \<Rightarrow> string" where
  "generation_name dump_db_name g = dump_db_name @ ''.#'' @ decimal g @ ''#''"

text \<open>
  What the outside gives to one pass through \<open>dump_database\<close> (from the label
  \<open>retryDumping\<close> on): whether \<open>fopen\<close> succeeds, whether \<open>write_db_file\<close> returns 1
  (it returns 0 exactly when the \<open>dbpriv_dbio_failed\<close> exception was raised) and the bytes
  it got into the file, whether \<open>rename\<close> succeeds.
\<close>

record attempt =
  fopen_ok :: bool
  write_ok :: bool
  written :: string
  rename_ok :: bool

text \<open>
  The configuration: the name of the dump file, the build option
  \<open>UNFORKED_CHECKPOINTS\<close>, and what \<open>fork_server\<close> returns in the process modelled.
\<close>

record dump_config =
  dump_db_name :: string
  UNFORKED_CHECKPOINTS :: bool
  fork_result :: Fork_Result

text \<open>
  How a pass ends: with \<open>goto retryDumping\<close>, with a \<open>return\<close> of the function, or
  with \<open>exit\<close> of the process.
\<close>

datatype pass_result = Retry | Returned int | Exited int

text \<open>The end of the function: the checkpoint child exits with \<open>!success\<close>, every
  other caller gets \<open>success\<close> back.\<close>

definition finish ::
  "dump_config \<Rightarrow> Dump_Reason \<Rightarrow> bool \<Rightarrow> nat \<Rightarrow> dump_event list
    \<Rightarrow> pass_result \<times> nat \<times> dump_event list" where
  "finish cfg reason success g evs =
     (if \<not> UNFORKED_CHECKPOINTS cfg \<and> reason = DUMP_CHECKPOINT
      then (Exited (if success then 0 else 1), g, evs @ [Exit (if success then 0 else 1)])
      else (Returned (if success then 1 else 0), g, evs))"

text \<open>
  One pass of \<open>dump_database\<close> from the label \<open>retryDumping\<close>, with the value of
  \<open>dump_generation\<close> before and after.
\<close>

definition dump_pass ::
  "dump_config \<Rightarrow> Dump_Reason \<Rightarrow> attempt \<Rightarrow> nat \<Rightarrow> pass_result \<times> nat \<times> dump_event list" where
  "dump_pass cfg reason a g =
     (let D = dump_db_name cfg;
          g' = (if reason = DUMP_PANIC then g else g + 1);
          temp_name = (if reason = DUMP_PANIC then D @ ''.PANIC'' else generation_name D g');
          ev1 = [Remove (generation_name D g),
                 Oklog (reason_names reason @ '' on '' @ temp_name @ '' ...'')]
      in
      if \<not> UNFORKED_CHECKPOINTS cfg \<and> reason = DUMP_CHECKPOINT \<and> fork_result cfg = FORK_PARENT
      then (Returned 1, g', ev1 @ [ForkServer FORK_PARENT, ResetCommandHistory])
      else if \<not> UNFORKED_CHECKPOINTS cfg \<and> reason = DUMP_CHECKPOINT
              \<and> fork_result cfg = FORK_ERROR
      then (Returned 0, g', ev1 @ [ForkServer FORK_ERROR])
      else
        let ev2 = ev1 @
              (if UNFORKED_CHECKPOINTS cfg then [ResetCommandHistory]
               else if reason = DUMP_CHECKPOINT
               then [ForkServer FORK_CHILD, SetServerCmdline ''(MOO checkpointer)'']
               else [])
        in
        if fopen_ok a then
          if \<not> write_ok a then
            let ev3 = ev2 @ [Fopen temp_name True, WriteDb temp_name False (written a),
                             LogPerror ''Trying to dump database'',
                             Fclose temp_name, Remove temp_name]
            in
            if reason = DUMP_CHECKPOINT
            then finish cfg reason False g' (ev3 @ [Errlog ''Abandoning checkpoint attempt ...''])
            else (Retry, g',
                  ev3 @ [Errlog ''Waiting 60 seconds and retrying dump ...'', TimerSleep 60])
          else
            let ev3 = ev2 @ [Fopen temp_name True, WriteDb temp_name True (written a),
                             Fflush temp_name, Fsync temp_name, Fclose temp_name,
                             Oklog (reason_names reason @ '' on '' @ temp_name @ '' finished'')]
            in
            if reason \<noteq> DUMP_PANIC then
              if \<not> rename_ok a
              then finish cfg reason False g'
                     (ev3 @ [Remove D, Rename temp_name D False,
                             LogPerror ''Renaming temporary dump file''])
              else finish cfg reason True g' (ev3 @ [Remove D, Rename temp_name D True])
            else finish cfg reason True g' ev3
        else finish cfg reason False g'
               (ev2 @ [Fopen temp_name False, LogPerror ''Opening temporary dump file'']))"

text \<open>
  \<open>dump_database\<close>: passes are made until one does not end in \<open>goto retryDumping\<close>.
  The \<open>k\<close>-th pass meets the outside \<open>env k\<close>.  The loop need not end, so the function is
  partial: \<open>None\<close> is a run that retries for ever.
\<close>

partial_function (option) dump_loop ::
  "dump_config \<Rightarrow> Dump_Reason \<Rightarrow> (nat \<Rightarrow> attempt) \<Rightarrow> nat \<Rightarrow> nat \<Rightarrow> dump_event list
    \<Rightarrow> (pass_result \<times> nat \<times> dump_event list) option" where
  "dump_loop cfg reason env k g evs =
     (let r = dump_pass cfg reason (env k) g in
      if fst r = Retry
      then dump_loop cfg reason env (k + 1) (fst (snd r)) (evs @ snd (snd r))
      else Some (fst r, fst (snd r), evs @ snd (snd r)))"

definition dump_database ::
  "dump_config \<Rightarrow> Dump_Reason \<Rightarrow> (nat \<Rightarrow> attempt) \<Rightarrow> nat
    \<Rightarrow> (pass_result \<times> nat \<times> dump_event list) option" where
  "dump_database cfg reason env g = dump_loop cfg reason env 0 g []"

text \<open>
  \<open>db_disk_size\<close>.  \<open>stat\<close> gives the size of a path, or \<open>None\<close> when it returns a
  negative number.  The size is an \<open>off_t\<close>; the function returns it as an \<open>int32\<close>.
\<close>

definition to_int32 :: "nat \<Rightarrow> int" where
  "to_int32 n = sint (word_of_nat n :: 32 word)"

definition db_disk_size :: "(string \<rightharpoonup> nat) \<Rightarrow> string \<Rightarrow> string \<Rightarrow> nat \<Rightarrow> int" where
  "db_disk_size stat input_db_name dump_name dump_generation =
     (if dump_generation = 0 \<or> stat dump_name = None
      then (case stat input_db_name of None \<Rightarrow> -1 | Some sz \<Rightarrow> to_int32 sz)
      else to_int32 (the (stat dump_name)))"

text \<open>\<open>stat\<close> on a file system of the model: the size is the length of the content.\<close>

definition stat_of :: "files \<Rightarrow> (string \<rightharpoonup> nat)" where
  "stat_of fs = (\<lambda>n. map_option length (fs n))"

text \<open>The calls that act on a given path.\<close>

fun touches :: "string \<Rightarrow> dump_event \<Rightarrow> bool" where
  "touches D (Remove n) = (n = D)"
| "touches D (Fopen n ok) = (n = D)"
| "touches D (WriteDb n ok bytes) = (n = D)"
| "touches D (Rename a b ok) = (a = D \<or> b = D)"
| "touches D _ = False"

section \<open>db_file.c: the version 4 object table\<close>

text \<open>
  Verb definitions, property definitions and property values are carried along
  unchanged by everything below; a verb definition is modelled by the fields that
  \<open>read_verbdef\<close> reads, a property definition by its name, a property value by the
  fields that \<open>read_propval\<close> reads.
\<close>

record Verbdef =
  vd_name :: string
  vd_owner :: Objid
  vd_perms :: int
  vd_prep :: int

record Pval =
  pv_var :: Var
  pv_owner :: Objid
  pv_perms :: int

text \<open>\<open>struct Object4\<close>.\<close>

record Object4 =
  o4_id :: Objid
  o4_owner :: Objid
  o4_location :: Objid
  o4_contents :: Objid
  o4_next :: Objid
  o4_parent :: Objid
  o4_child :: Objid
  o4_sibling :: Objid
  o4_name :: string
  o4_flags :: int
  o4_verbdefs :: "Verbdef list"
  o4_propdefs :: "string list"
  o4_propval :: "Pval list"

text \<open>
  The table \<open>objects\<close> with \<open>num_objects\<close> slots: a slot holds a pointer to an object
  or the null pointer (a recycled object).  \<open>num_objects\<close> is the length of the list.
\<close>

type_synonym table4 = "Object4 option list"

definition dbv4_new_object :: "table4 \<Rightarrow> Object4 \<Rightarrow> table4" where
  "dbv4_new_object objects ob = objects @ [Some (ob\<lparr>o4_id := int (length objects)\<rparr>)]"

definition dbv4_new_recycled_object :: "table4 \<Rightarrow> table4" where
  "dbv4_new_recycled_object objects = objects @ [None]"

definition dbv4_find_object :: "table4 \<Rightarrow> Objid \<Rightarrow> Object4 option" where
  "dbv4_find_object objects oid =
     (if oid < 0 \<or> oid \<ge> int (length objects) then None else objects ! nat oid)"

definition dbv4_valid :: "table4 \<Rightarrow> Objid \<Rightarrow> bool" where
  "dbv4_valid objects oid = (dbv4_find_object objects oid \<noteq> None)"

definition dbv4_last_used_objid :: "table4 \<Rightarrow> Objid" where
  "dbv4_last_used_objid objects = int (length objects) - 1"

subsection \<open>The log\<close>

text \<open>
  A call of \<open>oklog\<close> or \<open>errlog\<close> is recorded with its format string (written
  without the newline that ends it) and its arguments.
\<close>

datatype log_arg = LInt int | LStr string

datatype log_entry = oklog string "log_arg list" | errlog string "log_arg list"

text \<open>
  \<open>MAYBE_LOG_PROGRESS\<close>: \<open>log_oid\<close> starts at \<open>PROGRESS_INTERVAL\<close> = 10000 and is
  raised by 10000 whenever \<open>oid\<close> reaches it, so the message is logged at the positive
  multiples of 10000.
\<close>

definition MAYBE_LOG_PROGRESS :: "string \<Rightarrow> nat \<Rightarrow> log_entry list \<Rightarrow> log_entry list" where
  "MAYBE_LOG_PROGRESS fmt oid lg =
     (if oid \<noteq> 0 \<and> oid mod 10000 = 0 then lg @ [oklog fmt [LInt (int oid)]] else lg)"

subsection \<open>v4_validate_hierarchies, phase 1\<close>

text \<open>
  The state of \<open>v4_validate_hierarchies\<close>: the table, the locals \<open>broken\<close> and
  \<open>fixed_nexts\<close>, and the log written so far.
\<close>

record vstate4 =
  vs_objects :: table4
  vs_broken :: bool
  vs_fixed_nexts :: int
  vs_log :: "log_entry list"

text \<open>
  The macro \<open>CHECK(field, name)\<close> of phase 1 on the object \<open>o\<close> of slot \<open>oid\<close>: a
  field that is not \<open>NOTHING\<close> and that \<open>dbv4_find_object\<close> does not find is logged
  and set to \<open>NOTHING\<close>.  The object is updated in place in the source; here the updated
  object is passed on and stored back in its slot at the end of the loop body.  The
  lookups are made in the table: they only ask whether a slot holds an object, which no
  repair changes.
\<close>

definition CHECK1 ::
  "table4 \<Rightarrow> nat \<Rightarrow> (Object4 \<Rightarrow> Objid) \<Rightarrow> (Objid \<Rightarrow> Object4 \<Rightarrow> Object4) \<Rightarrow> string
    \<Rightarrow> Object4 \<times> log_entry list \<Rightarrow> Object4 \<times> log_entry list" where
  "CHECK1 objects oid field set_field name ol =
     (let ob = fst ol; lg = snd ol in
      if field ob \<noteq> NOTHING \<and> dbv4_find_object objects (field ob) = None
      then (set_field NOTHING ob,
            lg @ [errlog ''VALIDATE: #%d.%s = #%d <invalid> ... fixed.''
                    [LInt (int oid), LStr name, LInt (field ob)]])
      else (ob, lg))"

text \<open>The body of the loop of phase 1.\<close>

definition v4_phase1_body :: "nat \<Rightarrow> vstate4 \<Rightarrow> vstate4" where
  "v4_phase1_body oid s =
     (let lg0 = MAYBE_LOG_PROGRESS ''VALIDATE: Done through #%d ...'' oid (vs_log s) in
      case dbv4_find_object (vs_objects s) (int oid) of
        None \<Rightarrow> s\<lparr>vs_log := lg0\<rparr>
      | Some ob \<Rightarrow>
          (let fix_next = (o4_location ob = NOTHING \<and> o4_next ob \<noteq> NOTHING);
               ob0 = (if fix_next then ob\<lparr>o4_next := NOTHING\<rparr> else ob);
               ol1 = CHECK1 (vs_objects s) oid o4_parent (\<lambda>v x. x\<lparr>o4_parent := v\<rparr>) ''parent''
                       (ob0, lg0);
               ol2 = CHECK1 (vs_objects s) oid o4_child (\<lambda>v x. x\<lparr>o4_child := v\<rparr>) ''child'' ol1;
               ol3 = CHECK1 (vs_objects s) oid o4_sibling (\<lambda>v x. x\<lparr>o4_sibling := v\<rparr>) ''sibling''
                       ol2;
               ol4 = CHECK1 (vs_objects s) oid o4_location (\<lambda>v x. x\<lparr>o4_location := v\<rparr>)
                       ''location'' ol3;
               ol5 = CHECK1 (vs_objects s) oid o4_contents (\<lambda>v x. x\<lparr>o4_contents := v\<rparr>)
                       ''contents'' ol4;
               ol6 = CHECK1 (vs_objects s) oid o4_next (\<lambda>v x. x\<lparr>o4_next := v\<rparr>) ''next'' ol5
           in s\<lparr>vs_objects := (vs_objects s)[oid := Some (fst ol6)],
                vs_fixed_nexts := (if fix_next then vs_fixed_nexts s + 1 else vs_fixed_nexts s),
                vs_log := snd ol6\<rparr>))"

text \<open>
  Phase 1: the loop over \<open>oid = 0 .. size - 1\<close> and the summary of the repaired
  \<open>next\<close> fields.
\<close>

definition v4_validate_phase1 :: "vstate4 \<Rightarrow> vstate4" where
  "v4_validate_phase1 s =
     (let s0 = s\<lparr>vs_log := vs_log s @ [oklog ''VALIDATE: Phase 1: Check for invalid objects ...'' []]\<rparr>;
          s1 = fold v4_phase1_body [0 ..< length (vs_objects s)] s0
      in if vs_fixed_nexts s1 \<noteq> 0
         then s1\<lparr>vs_log := vs_log s1 @
                  [errlog ''VALIDATE: Fixed %d should-be-null next pointer(s) ...''
                     [LInt (vs_fixed_nexts s1)]]\<rparr>
         else s1)"

text \<open>The state in which \<open>v4_validate_hierarchies\<close> starts on a table.\<close>

definition v4_initial :: "table4 \<Rightarrow> vstate4" where
  "v4_initial objects =
     \<lparr>vs_objects = objects, vs_broken = False, vs_fixed_nexts = 0,
      vs_log = [oklog ''VALIDATING the object hierarchies ...'' []]\<rparr>"

subsection \<open>v4_validate_hierarchies, phase 2\<close>

datatype c_fault = OutOfBounds int | NullDereference int

text \<open>
  The loop of the macro \<open>CHECK(start, field, name)\<close> of phase 2, from the test
  \<open>oid2 != NOTHING\<close> on: \<open>Inr True\<close> when \<open>++count > size\<close> is reached (a cycle),
  \<open>Inr False\<close> when the chain ends in \<open>NOTHING\<close>.  The step
  \<open>dbv4_find_object(oid2)->field\<close> dereferences what the lookup returns: a null pointer
  there is a fault.
\<close>

function v4_chain ::
  "table4 \<Rightarrow> (Object4 \<Rightarrow> Objid) \<Rightarrow> nat \<Rightarrow> Objid \<Rightarrow> nat \<Rightarrow> c_fault + bool" where
  "v4_chain objects field sz oid2 count =
     (if oid2 = NOTHING then Inr False
      else if count + 1 > sz then Inr True
      else case dbv4_find_object objects oid2 of
             None \<Rightarrow> Inl (NullDereference oid2)
           | Some o2 \<Rightarrow> v4_chain objects field sz (field o2) (count + 1))"
  by pat_completeness auto
termination
  by (relation "measure (\<lambda>(objects, field, sz, oid2, count). sz - count)") auto

declare v4_chain.simps [simp del]

text \<open>One use of the macro: the chain is walked, and a cycle is logged and sets
  \<open>broken\<close>.\<close>

definition CHECK2 ::
  "nat \<Rightarrow> Objid \<Rightarrow> (Object4 \<Rightarrow> Objid) \<Rightarrow> string \<Rightarrow> vstate4 \<Rightarrow> c_fault + vstate4" where
  "CHECK2 oid start field name s =
     (case v4_chain (vs_objects s) field (length (vs_objects s)) start 0 of
        Inl e \<Rightarrow> Inl e
      | Inr cyc \<Rightarrow>
          Inr (if cyc
               then s\<lparr>vs_broken := True,
                      vs_log := vs_log s @
                        [errlog ''VALIDATE: Cycle in `%s' chain of #%d'' [LStr name, LInt (int oid)]]\<rparr>
               else s))"

text \<open>Sequencing of steps that may fault.\<close>

definition then_do :: "c_fault + 'a \<Rightarrow> ('a \<Rightarrow> c_fault + 'b) \<Rightarrow> c_fault + 'b" where
  "then_do m f = (case m of Inl e \<Rightarrow> Inl e | Inr x \<Rightarrow> f x)"

fun for_each_oid :: "(nat \<Rightarrow> 's \<Rightarrow> c_fault + 's) \<Rightarrow> nat list \<Rightarrow> 's \<Rightarrow> c_fault + 's" where
  "for_each_oid body [] s = Inr s"
| "for_each_oid body (oid # oids) s = then_do (body oid s) (for_each_oid body oids)"

definition v4_phase2_body :: "nat \<Rightarrow> vstate4 \<Rightarrow> c_fault + vstate4" where
  "v4_phase2_body oid s =
     (let s0 = s\<lparr>vs_log := MAYBE_LOG_PROGRESS ''VALIDATE: Done through #%d ...'' oid (vs_log s)\<rparr> in
      case dbv4_find_object (vs_objects s) (int oid) of
        None \<Rightarrow> Inr s0
      | Some ob \<Rightarrow>
          then_do (CHECK2 oid (o4_parent ob) o4_parent ''parent'' s0) (\<lambda>s1.
          then_do (CHECK2 oid (o4_child ob) o4_sibling ''child'' s1) (\<lambda>s2.
          then_do (CHECK2 oid (o4_location ob) o4_location ''location'' s2) (\<lambda>s3.
                   CHECK2 oid (o4_contents ob) o4_next ''contents'' s3))))"

text \<open>
  Phase 2.  The function returns 0 after it when \<open>vs_broken\<close> is set ("Can't continue
  if cycles found").
\<close>

definition v4_validate_phase2 :: "vstate4 \<Rightarrow> c_fault + vstate4" where
  "v4_validate_phase2 s =
     for_each_oid v4_phase2_body [0 ..< length (vs_objects s)]
       (s\<lparr>vs_log := vs_log s @ [oklog ''VALIDATE: Phase 2: Check for cycles ...'' []]\<rparr>)"

subsection \<open>The live object store\<close>

text \<open>
  The live \<open>Object\<close>, with the fields that this file reads and writes.  The store is the
  table of the live objects, a slot holding an object or nothing (a recycled object).
\<close>

record Object =
  obj_id :: Objid
  obj_name :: string
  obj_flags :: int
  obj_owner :: Objid
  obj_location :: Var
  obj_contents :: Var
  obj_parents :: Var
  obj_children :: Var
  obj_verbdefs :: "Verbdef list"
  obj_propdefs :: "string list"
  obj_propval :: "Pval list"

type_synonym store = "Object option list"

text \<open>
  Modelled from the spec: \<open>dbpriv_new_object\<close>, \<open>dbpriv_new_recycled_object\<close> and
  \<open>dbpriv_find_object\<close> are defined outside this file.  A new object takes the next slot
  and has the index of the slot as its id; a recycled object reserves the next slot as
  empty; a lookup gives the object of the slot, and nothing out of range.
\<close>

definition dbpriv_new_object :: "store \<Rightarrow> Object \<Rightarrow> store" where
  "dbpriv_new_object st ob = st @ [Some (ob\<lparr>obj_id := int (length st)\<rparr>)]"

definition dbpriv_new_recycled_object :: "store \<Rightarrow> store" where
  "dbpriv_new_recycled_object st = st @ [None]"

definition dbpriv_find_object :: "store \<Rightarrow> Objid \<Rightarrow> Object option" where
  "dbpriv_find_object st oid =
     (if oid < 0 \<or> oid \<ge> int (length st) then None else st ! nat oid)"

text \<open>
  Modelled from the spec: the constructors and list operations of the value system are
  defined outside this file.  \<open>new_obj\<close> makes the object value of an id, \<open>new_list(0)\<close>
  the empty list, \<open>listappend\<close> adds a value at the end of a list (it is only called on
  lists), \<open>var_dup\<close> copies a value.
\<close>

definition new_obj :: "Objid \<Rightarrow> Var" where
  "new_obj oid = VObj oid"

definition new_list0 :: Var where
  "new_list0 = VList []"

definition var_dup :: "Var \<Rightarrow> Var" where
  "var_dup v = v"

fun listappend :: "Var \<Rightarrow> Var \<Rightarrow> Var" where
  "listappend (VList xs) v = VList (xs @ [v])"
| "listappend l v = l"

subsection \<open>v4_upgrade_objects\<close>

text \<open>The read \<open>objects[iter]->field\<close>: the slot is indexed without a test of the
  range and the pointer in it is dereferenced.\<close>

definition objects_at :: "table4 \<Rightarrow> Objid \<Rightarrow> c_fault + Object4" where
  "objects_at objects iter =
     (if iter < 0 \<or> iter \<ge> int (length objects) then Inl (OutOfBounds iter)
      else case objects ! nat iter of
             None \<Rightarrow> Inl (NullDereference iter)
           | Some ob \<Rightarrow> Inr ob)"

text \<open>
  The loop \<open>for (iter = start; iter != NOTHING; iter = objects[iter]->field)\<close> that
  appends \<open>iter\<close> to a list.  Nothing bounds the number of its rounds: \<open>None\<close> is the
  loop that does not end.
\<close>

partial_function (option) v4_walk ::
  "table4 \<Rightarrow> (Object4 \<Rightarrow> Objid) \<Rightarrow> Objid \<Rightarrow> Var \<Rightarrow> (c_fault + Var) option" where
  "v4_walk objects field iter acc =
     (if iter = NOTHING then Some (Inr acc)
      else case objects_at objects iter of
             Inl e \<Rightarrow> Some (Inl e)
           | Inr ob \<Rightarrow> v4_walk objects field (field ob) (listappend acc (var_dup (new_obj iter))))"

text \<open>The body of the loop of \<open>v4_upgrade_objects\<close> for one slot.\<close>

definition v4_upgrade_slot :: "table4 \<Rightarrow> nat \<Rightarrow> store \<Rightarrow> (c_fault + store) option" where
  "v4_upgrade_slot objects oid st =
     (case dbv4_find_object objects (int oid) of
        None \<Rightarrow> Some (Inr (dbpriv_new_recycled_object st))
      | Some ob \<Rightarrow>
          (case v4_walk objects o4_sibling (o4_child ob) new_list0 of
             None \<Rightarrow> None
           | Some (Inl e) \<Rightarrow> Some (Inl e)
           | Some (Inr children) \<Rightarrow>
               (case v4_walk objects o4_next (o4_contents ob) new_list0 of
                  None \<Rightarrow> None
                | Some (Inl e) \<Rightarrow> Some (Inl e)
                | Some (Inr contents) \<Rightarrow>
                    Some (Inr (dbpriv_new_object st
                      \<lparr>obj_id = 0, obj_name = o4_name ob, obj_flags = o4_flags ob,
                       obj_owner = o4_owner ob,
                       obj_location = var_dup (new_obj (o4_location ob)),
                       obj_contents = contents,
                       obj_parents = var_dup (new_obj (o4_parent ob)),
                       obj_children = children,
                       obj_verbdefs = o4_verbdefs ob, obj_propdefs = o4_propdefs ob,
                       obj_propval = o4_propval ob\<rparr>)))))"

fun v4_upgrade_loop :: "table4 \<Rightarrow> nat list \<Rightarrow> store \<Rightarrow> (c_fault + store) option" where
  "v4_upgrade_loop objects [] st = Some (Inr st)"
| "v4_upgrade_loop objects (oid # oids) st =
     (case v4_upgrade_slot objects oid st of
        None \<Rightarrow> None
      | Some (Inl e) \<Rightarrow> Some (Inl e)
      | Some (Inr st') \<Rightarrow> v4_upgrade_loop objects oids st')"

text \<open>
  \<open>v4_upgrade_objects\<close>: the loop over \<open>oid = 0 .. size - 1\<close>, which fills the live
  store; the table of version 4 is freed after it.
\<close>

definition v4_upgrade_objects :: "table4 \<Rightarrow> store \<Rightarrow> (c_fault + store) option" where
  "v4_upgrade_objects objects st = v4_upgrade_loop objects [0 ..< length objects] st"

subsection \<open>Phase 1 in closed form\<close>

text \<open>
  The definitions of this subsection are not taken from the source: they say, in the
  words of the specification, what phase 1 does to one object and what it logs, and are
  proved equal to the loop of the source below.
\<close>

text \<open>A reference that phase 1 repairs: not \<open>NOTHING\<close>, and no object in its slot.\<close>

definition dangling :: "table4 \<Rightarrow> Objid \<Rightarrow> bool" where
  "dangling objects v = (v \<noteq> NOTHING \<and> dbv4_find_object objects v = None)"

definition keep_valid :: "table4 \<Rightarrow> Objid \<Rightarrow> Objid" where
  "keep_valid objects v = (if dangling objects v then NOTHING else v)"

definition fix_next :: "Object4 \<Rightarrow> bool" where
  "fix_next ob = (o4_location ob = NOTHING \<and> o4_next ob \<noteq> NOTHING)"

definition v4_repaired :: "table4 \<Rightarrow> Object4 \<Rightarrow> Object4" where
  "v4_repaired objects ob =
     ob\<lparr>o4_parent := keep_valid objects (o4_parent ob),
        o4_child := keep_valid objects (o4_child ob),
        o4_sibling := keep_valid objects (o4_sibling ob),
        o4_location := keep_valid objects (o4_location ob),
        o4_contents := keep_valid objects (o4_contents ob),
        o4_next := (if o4_location ob = NOTHING then NOTHING
                    else keep_valid objects (o4_next ob))\<rparr>"

definition fixed_entry :: "nat \<Rightarrow> string \<Rightarrow> Objid \<Rightarrow> log_entry" where
  "fixed_entry oid name v =
     errlog ''VALIDATE: #%d.%s = #%d <invalid> ... fixed.'' [LInt (int oid), LStr name, LInt v]"

definition entry_if :: "table4 \<Rightarrow> nat \<Rightarrow> string \<Rightarrow> Objid \<Rightarrow> log_entry list" where
  "entry_if objects oid name v = (if dangling objects v then [fixed_entry oid name v] else [])"

definition phase1_entries :: "table4 \<Rightarrow> nat \<Rightarrow> Object4 \<Rightarrow> log_entry list" where
  "phase1_entries objects oid ob =
     entry_if objects oid ''parent'' (o4_parent ob)
     @ entry_if objects oid ''child'' (o4_child ob)
     @ entry_if objects oid ''sibling'' (o4_sibling ob)
     @ entry_if objects oid ''location'' (o4_location ob)
     @ entry_if objects oid ''contents'' (o4_contents ob)
     @ (if fix_next ob then [] else entry_if objects oid ''next'' (o4_next ob))"

text \<open>Two tables with objects in the same slots.\<close>

definition same_slots :: "table4 \<Rightarrow> table4 \<Rightarrow> bool" where
  "same_slots xs ys =
     (length xs = length ys \<and> (\<forall>i < length ys. (xs ! i = None) = (ys ! i = None)))"

text \<open>What one round of the loop of phase 1 writes to the log.\<close>

definition slot_log :: "table4 \<Rightarrow> nat \<Rightarrow> log_entry list" where
  "slot_log objects oid =
     MAYBE_LOG_PROGRESS ''VALIDATE: Done through #%d ...'' oid []
     @ (case objects ! oid of None \<Rightarrow> [] | Some ob \<Rightarrow> phase1_entries objects oid ob)"

definition fixable :: "Object4 option \<Rightarrow> bool" where
  "fixable slot = (case slot of None \<Rightarrow> False | Some ob \<Rightarrow> fix_next ob)"

subsection \<open>Chains and cycles of version 4\<close>

text \<open>
  The list obtained by walking a chain of version 4: from \<open>start\<close>, each object is
  followed by the object that its \<open>field\<close> names, until \<open>NOTHING\<close>.
\<close>

inductive v4_chain_list :: "table4 \<Rightarrow> (Object4 \<Rightarrow> Objid) \<Rightarrow> Objid \<Rightarrow> Objid list \<Rightarrow> bool"
  for objects :: table4 and field :: "Object4 \<Rightarrow> Objid" where
  chain_end: "v4_chain_list objects field NOTHING []"
| chain_step: "iter \<noteq> NOTHING \<Longrightarrow> dbv4_find_object objects iter = Some ob \<Longrightarrow>
     v4_chain_list objects field (field ob) xs \<Longrightarrow>
     v4_chain_list objects field iter (iter # xs)"

text \<open>Every object's \<open>field\<close> is \<open>NOTHING\<close> or names an object.\<close>

definition links_valid :: "table4 \<Rightarrow> (Object4 \<Rightarrow> Objid) \<Rightarrow> bool" where
  "links_valid objects field =
     (\<forall>v ob. dbv4_find_object objects v = Some ob \<longrightarrow> \<not> dangling objects (field ob))"

text \<open>The table after phase 1: every reference is \<open>NOTHING\<close> or names an object.\<close>

definition well_linked :: "table4 \<Rightarrow> bool" where
  "well_linked objects =
     (links_valid objects o4_parent \<and> links_valid objects o4_child
      \<and> links_valid objects o4_sibling \<and> links_valid objects o4_location
      \<and> links_valid objects o4_contents \<and> links_valid objects o4_next)"

text \<open>What the four tests of phase 2 find for one object.\<close>

definition object_cycle :: "table4 \<Rightarrow> Object4 \<Rightarrow> bool" where
  "object_cycle objects ob =
     (v4_chain objects o4_parent (length objects) (o4_parent ob) 0 = Inr True
      \<or> v4_chain objects o4_sibling (length objects) (o4_child ob) 0 = Inr True
      \<or> v4_chain objects o4_location (length objects) (o4_location ob) 0 = Inr True
      \<or> v4_chain objects o4_next (length objects) (o4_contents ob) 0 = Inr True)"

definition slot_cycle :: "table4 \<Rightarrow> nat \<Rightarrow> bool" where
  "slot_cycle objects oid =
     (case dbv4_find_object objects (int oid) of
        None \<Rightarrow> False
      | Some ob \<Rightarrow> object_cycle objects ob)"

text \<open>
  The relation of a field: an object is related to the object its field names.  A chain
  from \<open>start\<close> runs into a cycle when some object that \<open>start\<close> reaches lies on a cycle
  of the relation.
\<close>

definition v4_rel :: "table4 \<Rightarrow> (Object4 \<Rightarrow> Objid) \<Rightarrow> (Objid \<times> Objid) set" where
  "v4_rel objects field =
     {(x, y). \<exists>ob. dbv4_find_object objects x = Some ob \<and> field ob = y \<and> y \<noteq> NOTHING}"

definition reaches_cycle :: "table4 \<Rightarrow> (Object4 \<Rightarrow> Objid) \<Rightarrow> Objid \<Rightarrow> bool" where
  "reaches_cycle objects field start =
     (start \<noteq> NOTHING
      \<and> (\<exists>x. (start, x) \<in> (v4_rel objects field)\<^sup>* \<and> (x, x) \<in> (v4_rel objects field)\<^sup>+))"

subsection \<open>Loading and upgrading a version 4 table\<close>

text \<open>
  The table that the reader builds from the object blocks of a version 4 file, in the
  order of the file: \<open>v4_read_object\<close> calls \<open>dbv4_new_recycled_object\<close> for a block
  \<open>#n recycled\<close> and \<open>dbv4_new_object\<close>, whose fields it then fills, for any other.
\<close>

definition v4_read_objects :: "Object4 option list \<Rightarrow> table4" where
  "v4_read_objects blocks =
     fold (\<lambda>b objects. case b of
                          None \<Rightarrow> dbv4_new_recycled_object objects
                        | Some body \<Rightarrow> dbv4_new_object objects body) blocks []"

text \<open>
  A loaded table of version 4: the table read from the file, repaired by phase 1, in
  which phase 2 has found no cycle.
\<close>

definition v4_loaded :: "Object4 option list \<Rightarrow> table4 \<Rightarrow> bool" where
  "v4_loaded blocks objects =
     (\<exists>s2. v4_validate_phase2 (v4_validate_phase1 (v4_initial (v4_read_objects blocks))) = Inr s2
           \<and> \<not> vs_broken s2 \<and> objects = vs_objects s2)"

text \<open>The live object that the upgrade makes of an object of version 4, given the two
  lists of its chains.\<close>

definition upgraded :: "nat \<Rightarrow> Object4 \<Rightarrow> Objid list \<Rightarrow> Objid list \<Rightarrow> Object" where
  "upgraded pos ob cs ns =
     \<lparr>obj_id = int pos, obj_name = o4_name ob, obj_flags = o4_flags ob,
      obj_owner = o4_owner ob, obj_location = VObj (o4_location ob),
      obj_contents = VList (map VObj ns), obj_parents = VObj (o4_parent ob),
      obj_children = VList (map VObj cs),
      obj_verbdefs = o4_verbdefs ob, obj_propdefs = o4_propdefs ob,
      obj_propval = o4_propval ob\<rparr>"

definition slot_upgraded :: "table4 \<Rightarrow> nat \<Rightarrow> nat \<Rightarrow> Object option \<Rightarrow> bool" where
  "slot_upgraded objects oid pos slot =
     (case dbv4_find_object objects (int oid) of
        None \<Rightarrow> slot = None
      | Some ob \<Rightarrow>
          (\<exists>cs ns. v4_chain_list objects o4_sibling (o4_child ob) cs
                 \<and> v4_chain_list objects o4_next (o4_contents ob) ns
                 \<and> slot = Some (upgraded pos ob cs ns)))"

definition chains_exist :: "table4 \<Rightarrow> nat \<Rightarrow> bool" where
  "chains_exist objects oid =
     (case dbv4_find_object objects (int oid) of
        None \<Rightarrow> True
      | Some ob \<Rightarrow>
          (\<exists>cs. v4_chain_list objects o4_sibling (o4_child ob) cs)
          \<and> (\<exists>ns. v4_chain_list objects o4_next (o4_contents ob) ns))"

section \<open>db_file.c: phase 2 of the validator of the live store\<close>

text \<open>
  Modelled from the spec: \<open>ismember\<close> is defined outside this file.
  \<open>ismember(value, list, 1)\<close> is the position, counted from 1, of the first element of
  the list equal to the value, and 0 when there is none.
\<close>

fun ismember_from :: "nat \<Rightarrow> Var \<Rightarrow> Var list \<Rightarrow> nat" where
  "ismember_from i v [] = 0"
| "ismember_from i v (x # xs) = (if x = v then i else ismember_from (i + 1) v xs)"

fun ismember :: "Var \<Rightarrow> Var \<Rightarrow> nat" where
  "ismember v (VList xs) = ismember_from 1 v xs"
| "ismember v l = 0"

text \<open>
  The macro \<open>CHECK(start, func, name)\<close> of phase 2 on the object \<open>oid\<close>: \<open>func\<close> is
  \<open>db_ancestors\<close> or \<open>db_all_locations\<close>, called with the flag \<open>false\<close>; the object is
  looked for in the list that \<open>func\<close> returns.  The two functions are defined outside
  this file and are parameters here: they take the store, the object and the flag.
  The state is the local \<open>broken\<close> and the log.
\<close>

definition ng_CHECK2 ::
  "(store \<Rightarrow> Objid \<Rightarrow> bool \<Rightarrow> Var) \<Rightarrow> store \<Rightarrow> nat \<Rightarrow> string
    \<Rightarrow> bool \<times> log_entry list \<Rightarrow> bool \<times> log_entry list" where
  "ng_CHECK2 func st oid name bl =
     (let tmp = VObj (int oid); all = func st (int oid) False in
      if ismember tmp all \<noteq> 0
      then (True, snd bl @ [errlog ''VALIDATE: Cycle in %s chain of #%d.''
                              [LStr name, LInt (int oid)]])
      else bl)"

definition ng_phase2_body ::
  "(store \<Rightarrow> Objid \<Rightarrow> bool \<Rightarrow> Var) \<Rightarrow> (store \<Rightarrow> Objid \<Rightarrow> bool \<Rightarrow> Var) \<Rightarrow> store \<Rightarrow> nat
    \<Rightarrow> bool \<times> log_entry list \<Rightarrow> bool \<times> log_entry list" where
  "ng_phase2_body db_ancestors db_all_locations st oid bl =
     (let bl0 = (fst bl, MAYBE_LOG_PROGRESS ''VALIDATE: Done through #%d ...'' oid (snd bl)) in
      case dbpriv_find_object st (int oid) of
        None \<Rightarrow> bl0
      | Some ob \<Rightarrow>
          ng_CHECK2 db_all_locations st oid ''location''
            (ng_CHECK2 db_ancestors st oid ''parent'' bl0))"

text \<open>
  Phase 2 of \<open>ng_validate_hierarchies\<close>: the loop over \<open>oid = 0 .. size - 1\<close>, started
  with \<open>broken\<close> = 0 (the function has returned before when phase 1 set it).  The
  function returns 0 after the loop when \<open>broken\<close> is set.
\<close>

definition ng_validate_phase2 ::
  "(store \<Rightarrow> Objid \<Rightarrow> bool \<Rightarrow> Var) \<Rightarrow> (store \<Rightarrow> Objid \<Rightarrow> bool \<Rightarrow> Var) \<Rightarrow> store
    \<Rightarrow> log_entry list \<Rightarrow> bool \<times> log_entry list" where
  "ng_validate_phase2 db_ancestors db_all_locations st lg =
     fold (ng_phase2_body db_ancestors db_all_locations st) [0 ..< length st]
       (False, lg @ [oklog ''VALIDATE: Phase 2: Check for cycles ...'' []])"

subsection \<open>Cycles of the live store\<close>

text \<open>
  The parents of a live object are one object value or a list of them; the relations of
  the live store relate an object to each of its parents, and to its location.
\<close>

definition parents_of :: "Object \<Rightarrow> Objid set" where
  "parents_of ob =
     (case obj_parents ob of
        VList xs \<Rightarrow> {p. VObj p \<in> set xs}
      | VObj p \<Rightarrow> {p}
      | _ \<Rightarrow> {})"

definition ng_parent_rel :: "store \<Rightarrow> (Objid \<times> Objid) set" where
  "ng_parent_rel st =
     {(x, p). \<exists>ob. dbpriv_find_object st x = Some ob \<and> p \<in> parents_of ob \<and> p \<noteq> NOTHING}"

definition ng_location_rel :: "store \<Rightarrow> (Objid \<times> Objid) set" where
  "ng_location_rel st =
     {(x, l). \<exists>ob. dbpriv_find_object st x = Some ob \<and> obj_location ob = VObj l \<and> l \<noteq> NOTHING}"

text \<open>
  Modelled from the spec: \<open>db_ancestors\<close> and \<open>db_all_locations\<close> are defined outside
  this file; they "compute the full ancestor set (and full enclosing-location set)" of
  an object.  This is what is asked of a function \<open>func\<close> for a relation \<open>r\<close>: for
  every object of the store, called with the flag \<open>false\<close>, it returns the list of the
  object values of all that the object reaches by one step of \<open>r\<close> or more.
\<close>

definition computes_closure ::
  "(store \<Rightarrow> Objid \<Rightarrow> bool \<Rightarrow> Var) \<Rightarrow> store \<Rightarrow> (Objid \<times> Objid) set \<Rightarrow> bool" where
  "computes_closure func st r =
     (\<forall>oid ob. dbpriv_find_object st oid = Some ob \<longrightarrow>
        (\<exists>xs. func st oid False = VList xs \<and> set xs = VObj ` {p. (oid, p) \<in> r\<^sup>+}))"

text \<open>
  What phase 2 of version 4 looks for: a cycle of the parent relation, a cycle of the
  location relation, a chain of siblings that starts at the \<open>child\<close> of an object and
  runs into a cycle, or a chain of \<open>next\<close> that starts at the \<open>contents\<close> of an object
  and runs into a cycle.
\<close>

definition v4_has_cycle :: "table4 \<Rightarrow> bool" where
  "v4_has_cycle objects =
     ((\<exists>x. (x, x) \<in> (v4_rel objects o4_parent)\<^sup>+)
      \<or> (\<exists>x. (x, x) \<in> (v4_rel objects o4_location)\<^sup>+)
      \<or> (\<exists>ob. Some ob \<in> set objects \<and> reaches_cycle objects o4_sibling (o4_child ob))
      \<or> (\<exists>ob. Some ob \<in> set objects \<and> reaches_cycle objects o4_next (o4_contents ob)))"

text \<open>An object of the live store that lies on a cycle of one of the two relations.\<close>

definition ng_slot_cycle :: "store \<Rightarrow> nat \<Rightarrow> bool" where
  "ng_slot_cycle st oid =
     (dbpriv_find_object st (int oid) \<noteq> None
      \<and> ((int oid, int oid) \<in> (ng_parent_rel st)\<^sup>+ \<or> (int oid, int oid) \<in> (ng_location_rel st)\<^sup>+))"

section \<open>Concrete inputs\<close>

text \<open>Inputs at which the theorems below are evaluated.\<close>

definition env_example :: exec_env where
  "env_example =
     \<lparr>BIN_SUBDIR = ''bin/'', stat_ok = (\<lambda>p. p = ''bin/ls''),
      pipeIn = Some (3, 4), pipeOut = Some (5, 6), pipeErr = None,
      fork_res = 77, dup2_res = (\<lambda>a b. b), execve_res = -1\<rparr>"

definition waiters_example :: "int \<rightharpoonup> tasks_waiting_on_exec" where
  "waiters_example = [77 \<mapsto> \<lparr>tw_p = 77, tw_in = 4, tw_out = 5, tw_err = 7\<rparr>]"

definition pipes_example :: pipes where
  "pipes_example = (\<lambda>fd. if fd = 5 then Some (replicate 1000 CHR ''a'') else Some [])"

definition cfg_child :: dump_config where
  "cfg_child = \<lparr>dump_db_name = ''db'', UNFORKED_CHECKPOINTS = False, fork_result = FORK_CHILD\<rparr>"

definition env_fail_once :: "nat \<Rightarrow> attempt" where
  "env_fail_once k =
     (if k = 0 then \<lparr>fopen_ok = True, write_ok = False, written = ''par'', rename_ok = True\<rparr>
      else \<lparr>fopen_ok = True, write_ok = True, written = ''image'', rename_ok = True\<rparr>)"

definition env_ok :: "nat \<Rightarrow> attempt" where
  "env_ok k = \<lparr>fopen_ok = True, write_ok = True, written = ''image'', rename_ok = True\<rparr>"

definition files_example :: files where
  "files_example = [''db'' \<mapsto> ''old image'', ''in.db'' \<mapsto> ''input'']"

definition checkpoint_events_example :: "dump_event list" where
  "checkpoint_events_example =
     [Remove ''db.#0#'', Oklog ''CHECKPOINTING on db.#1# ...'',
      ForkServer FORK_CHILD, SetServerCmdline ''(MOO checkpointer)'',
      Fopen ''db.#1#'' True, WriteDb ''db.#1#'' True ''image'',
      Fflush ''db.#1#'', Fsync ''db.#1#'', Fclose ''db.#1#'',
      Oklog ''CHECKPOINTING on db.#1# finished'',
      Remove ''db'', Rename ''db.#1#'' ''db'' True, Exit 0]"

definition cfg_fork_error :: dump_config where
  "cfg_fork_error = \<lparr>dump_db_name = ''db'', UNFORKED_CHECKPOINTS = False, fork_result = FORK_ERROR\<rparr>"

text \<open>An object of version 4 with every reference \<open>NOTHING\<close>.\<close>

definition blank4 :: Object4 where
  "blank4 =
     \<lparr>o4_id = 0, o4_owner = NOTHING, o4_location = NOTHING, o4_contents = NOTHING,
      o4_next = NOTHING, o4_parent = NOTHING, o4_child = NOTHING, o4_sibling = NOTHING,
      o4_name = ''object'', o4_flags = 0, o4_verbdefs = [], o4_propdefs = [],
      o4_propval = []\<rparr>"

text \<open>One object whose parent is #7, which does not exist, and which is nowhere but
  has a \<open>next\<close>.\<close>

definition table_dangling :: table4 where
  "table_dangling = [Some (blank4\<lparr>o4_parent := 7, o4_next := 0\<rparr>)]"

text \<open>
  A tree of version 4 as it stands in a file and as the reader tables it: #0 with the
  children #1 and #3, and the recycled #2.  \<open>store_tree\<close> is the live store made of it.
\<close>

definition blocks_tree :: "Object4 option list" where
  "blocks_tree =
     [Some (blank4\<lparr>o4_child := 1\<rparr>),
      Some (blank4\<lparr>o4_parent := 0, o4_sibling := 3\<rparr>),
      None,
      Some (blank4\<lparr>o4_parent := 0\<rparr>)]"

definition table_tree :: table4 where
  "table_tree =
     [Some (blank4\<lparr>o4_id := 0, o4_child := 1\<rparr>),
      Some (blank4\<lparr>o4_id := 1, o4_parent := 0, o4_sibling := 3\<rparr>),
      None,
      Some (blank4\<lparr>o4_id := 3, o4_parent := 0\<rparr>)]"

definition store_tree :: store where
  "store_tree =
     [Some \<lparr>obj_id = 0, obj_name = ''object'', obj_flags = 0, obj_owner = - 1,
            obj_location = VObj (- 1), obj_contents = VList [], obj_parents = VObj (- 1),
            obj_children = VList [VObj 1, VObj 3],
            obj_verbdefs = [], obj_propdefs = [], obj_propval = []\<rparr>,
      Some \<lparr>obj_id = 1, obj_name = ''object'', obj_flags = 0, obj_owner = - 1,
            obj_location = VObj (- 1), obj_contents = VList [], obj_parents = VObj 0,
            obj_children = VList [],
            obj_verbdefs = [], obj_propdefs = [], obj_propval = []\<rparr>,
      None,
      Some \<lparr>obj_id = 3, obj_name = ''object'', obj_flags = 0, obj_owner = - 1,
            obj_location = VObj (- 1), obj_contents = VList [], obj_parents = VObj 0,
            obj_children = VList [],
            obj_verbdefs = [], obj_propdefs = [], obj_propval = []\<rparr>]"

text \<open>
  A table of version 4 in which #0 has the location #7, which does not exist, and the
  \<open>next\<close> #1, which does; the same table after one run of phase 1, and after two.
\<close>

definition table_stale_next :: table4 where
  "table_stale_next =
     [Some (blank4\<lparr>o4_id := 0, o4_location := 7, o4_next := 1\<rparr>),
      Some (blank4\<lparr>o4_id := 1\<rparr>)]"

definition table_once :: table4 where
  "table_once =
     [Some (blank4\<lparr>o4_id := 0, o4_next := 1\<rparr>),
      Some (blank4\<lparr>o4_id := 1\<rparr>)]"

definition table_twice :: table4 where
  "table_twice =
     [Some (blank4\<lparr>o4_id := 0\<rparr>),
      Some (blank4\<lparr>o4_id := 1\<rparr>)]"

text \<open>
  A live store of two objects, each the location of the other, with functions that
  return the ancestors and the enclosing locations of its objects; and a table of
  version 4 in which the only child of #0 is its own sibling.
\<close>

definition blank :: Object where
  "blank =
     \<lparr>obj_id = 0, obj_name = ''object'', obj_flags = 0, obj_owner = NOTHING,
      obj_location = VObj NOTHING, obj_contents = VList [], obj_parents = VObj NOTHING,
      obj_children = VList [], obj_verbdefs = [], obj_propdefs = [], obj_propval = []\<rparr>"

definition store_loop :: store where
  "store_loop =
     [Some (blank\<lparr>obj_id := 0, obj_location := VObj 1, obj_contents := VList [VObj 1]\<rparr>),
      Some (blank\<lparr>obj_id := 1, obj_location := VObj 0, obj_contents := VList [VObj 0]\<rparr>)]"

definition ancestors_example :: "store \<Rightarrow> Objid \<Rightarrow> bool \<Rightarrow> Var" where
  "ancestors_example st oid full = VList []"

definition locations_example :: "store \<Rightarrow> Objid \<Rightarrow> bool \<Rightarrow> Var" where
  "locations_example st oid full =
     (if oid = 0 then VList [VObj 1, VObj 0] else VList [VObj 0, VObj 1])"

definition table_sibling_loop :: table4 where
  "table_sibling_loop =
     [Some (blank4\<lparr>o4_id := 0, o4_child := 1\<rparr>),
      Some (blank4\<lparr>o4_id := 1, o4_sibling := 1\<rparr>)]"

section \<open>Properties of the exec built-in\<close>

lemma all_strings_iff: "all_strings as \<longleftrightarrow> (\<forall>a \<in> set as. is_str a)"
  by (induction as) auto

lemma is_prefix_iff: "is_prefix xs ys \<longleftrightarrow> (\<exists>zs. ys = xs @ zs)"
  by (induction xs ys rule: is_prefix.induct) auto

lemma strstr_None_iff: "strstr h n = None \<longleftrightarrow> \<not> (\<exists>ps ss. h = ps @ n @ ss)"
proof (induction h)
  case Nil
  then show ?case by auto
next
  case (Cons c cs)
  show ?case
  proof (cases "is_prefix n (c # cs)")
    case True
    then obtain zs where "c # cs = n @ zs" by (auto simp: is_prefix_iff)
    then have "c # cs = [] @ n @ zs" by simp
    with True show ?thesis by (metis strstr.simps(2) option.distinct(1))
  next
    case False
    have "(\<exists>ps ss. c # cs = ps @ n @ ss) \<longleftrightarrow> (\<exists>ps ss. cs = ps @ n @ ss)"
    proof
      assume "\<exists>ps ss. c # cs = ps @ n @ ss"
      then obtain ps ss where e: "c # cs = ps @ n @ ss" by blast
      show "\<exists>ps ss. cs = ps @ n @ ss"
      proof (cases ps)
        case Nil
        with e False show ?thesis by (auto simp: is_prefix_iff)
      next
        case (Cons p ps')
        with e have "cs = ps' @ n @ ss" by simp
        then show ?thesis by blast
      qed
    next
      assume "\<exists>ps ss. cs = ps @ n @ ss"
      then obtain ps ss where "cs = ps @ n @ ss" by blast
      then have "c # cs = (c # ps) @ n @ ss" by simp
      then show "\<exists>ps ss. c # cs = ps @ n @ ss" by blast
    qed
    with False Cons.IH show ?thesis by simp
  qed
qed

lemma strstr_Some_iff: "strstr h n \<noteq> None \<longleftrightarrow> (\<exists>ps ss. h = ps @ n @ ss)"
  using strstr_None_iff [of h n] by simp

lemma dotdot_iff:
  "(1 < length cmd \<and> cmd ! 0 = CHR ''.'' \<and> cmd ! 1 = CHR ''.'') \<longleftrightarrow> (\<exists>zs. cmd = ''..'' @ zs)"
proof (cases cmd)
  case Nil
  then show ?thesis by simp
next
  case (Cons a as)
  then show ?thesis by (cases as) auto
qed

lemmas bf_exec_simps = bf_exec_def all_strings_iff Let_def

text \<open>
  C9.  The error cases of the exec built-in, in the order the code tests them: the empty
  argument list raises \<open>E_ARGS\<close>; a list with an element that is not a string raises
  \<open>E_INVARG\<close>; for a list of strings whose first element is the command, a command that
  starts with \<open>..\<close> or contains \<open>/.\<close> raises \<open>E_INVARG\<close> with "Invalid path"; otherwise
  the path is \<open>BIN_SUBDIR\<close> followed by the command without one leading slash, and when
  \<open>stat\<close> fails on it the call raises \<open>E_INVARG\<close> with "Does not exist"; when a \<open>pipe\<close>
  call or the \<open>fork\<close> fails the call raises \<open>E_EXEC\<close> and has closed exactly the
  descriptors allocated up to that point.
\<close>

theorem bf_exec_error_cases:
  "bf_exec env [] = (Return (ErrorPack E_ARGS), [])
   \<and> ((\<exists>a \<in> set arglist. \<not> is_str a) \<longrightarrow>
        bf_exec env arglist = (Return (ErrorPack E_INVARG), []))
   \<and> ((\<forall>a \<in> set rest. is_str a) \<longrightarrow>
        (((\<exists>zs. cmd = ''..'' @ zs) \<or> (\<exists>ps ss. cmd = ps @ ''/.'' @ ss)) \<longrightarrow>
           bf_exec env (VStr cmd # rest)
             = (Return (RaisePack E_INVARG ''Invalid path'' zero), []))
        \<and> (\<not> ((\<exists>zs. cmd = ''..'' @ zs) \<or> (\<exists>ps ss. cmd = ps @ ''/.'' @ ss)) \<longrightarrow>
             (\<not> stat_ok env
                  (BIN_SUBDIR env @ (case cmd of [] \<Rightarrow> [] | c # cs \<Rightarrow> if c = CHR ''/'' then cs else cmd)) \<longrightarrow>
                bf_exec env (VStr cmd # rest)
                  = (Return (RaisePack E_INVARG ''Does not exist'' zero), []))
             \<and> (stat_ok env
                  (BIN_SUBDIR env @ (case cmd of [] \<Rightarrow> [] | c # cs \<Rightarrow> if c = CHR ''/'' then cs else cmd))
                \<and> (pipeIn env = None \<or> pipeOut env = None \<or> pipeErr env = None
                    \<or> fork_res env < 0) \<longrightarrow>
                bf_exec env (VStr cmd # rest)
                  = (Return (RaisePack E_EXEC ''Exec failed'' zero),
                     map Close (allocated_fds env)))))"
proof -
  have resolve: "resolve_cmd (BIN_SUBDIR env) cmd
      = BIN_SUBDIR env @ (case cmd of [] \<Rightarrow> [] | c # cs \<Rightarrow> if c = CHR ''/'' then cs else cmd)"
    by (cases cmd) (simp_all add: resolve_cmd_def)
  have c1: "bf_exec env [] = (Return (ErrorPack E_ARGS), [])"
    by (simp add: bf_exec_def)
  have c2: "(\<exists>a \<in> set arglist. \<not> is_str a) \<longrightarrow>
        bf_exec env arglist = (Return (ErrorPack E_INVARG), [])"
    by (simp add: bf_exec_def all_strings_iff)
  have c3: "bf_exec env (VStr cmd # rest)
             = (Return (RaisePack E_INVARG ''Invalid path'' zero), [])"
    if "\<forall>a \<in> set rest. is_str a"
      and "(\<exists>zs. cmd = ''..'' @ zs) \<or> (\<exists>ps ss. cmd = ps @ ''/.'' @ ss)"
  proof -
    from that(2) have "(1 < length cmd \<and> cmd ! 0 = CHR ''.'' \<and> cmd ! 1 = CHR ''.'')
        \<or> strstr cmd ''/.'' \<noteq> None"
      unfolding dotdot_iff strstr_Some_iff .
    with that(1) show ?thesis
      by (auto simp: bf_exec_simps simp del: strstr.simps)
  qed
  have ok: "\<not> (1 < length cmd \<and> cmd ! 0 = CHR ''.'' \<and> cmd ! 1 = CHR ''.'')
        \<and> strstr cmd ''/.'' = None"
    if "\<not> ((\<exists>zs. cmd = ''..'' @ zs) \<or> (\<exists>ps ss. cmd = ps @ ''/.'' @ ss))"
    using that unfolding dotdot_iff strstr_None_iff by blast
  have c4: "bf_exec env (VStr cmd # rest)
                  = (Return (RaisePack E_INVARG ''Does not exist'' zero), [])"
    if "\<forall>a \<in> set rest. is_str a"
      and "\<not> ((\<exists>zs. cmd = ''..'' @ zs) \<or> (\<exists>ps ss. cmd = ps @ ''/.'' @ ss))"
      and "\<not> stat_ok env
          (BIN_SUBDIR env @ (case cmd of [] \<Rightarrow> [] | c # cs \<Rightarrow> if c = CHR ''/'' then cs else cmd))"
    using that(1,3) ok [OF that(2)] unfolding resolve [symmetric]
    by (simp add: bf_exec_simps del: strstr.simps)
  have c5: "bf_exec env (VStr cmd # rest)
                  = (Return (RaisePack E_EXEC ''Exec failed'' zero),
                     map Close (allocated_fds env))"
    if "\<forall>a \<in> set rest. is_str a"
      and "\<not> ((\<exists>zs. cmd = ''..'' @ zs) \<or> (\<exists>ps ss. cmd = ps @ ''/.'' @ ss))"
      and "stat_ok env
          (BIN_SUBDIR env @ (case cmd of [] \<Rightarrow> [] | c # cs \<Rightarrow> if c = CHR ''/'' then cs else cmd))"
      and "pipeIn env = None \<or> pipeOut env = None \<or> pipeErr env = None \<or> fork_res env < 0"
    using that(1,3,4) ok [OF that(2)] unfolding resolve [symmetric]
    by (auto simp: bf_exec_simps allocated_fds_def
        simp del: strstr.simps split: option.splits)
  from c1 c2 c3 c4 c5 show ?thesis by blast
qed

theorem bf_exec_error_cases_witness:
  "bf_exec env_example [VInt 1] = (Return (ErrorPack E_INVARG), [])
   \<and> bf_exec env_example [VStr ''../sh'', VStr ''-c'']
       = (Return (RaisePack E_INVARG ''Invalid path'' zero), [])
   \<and> bf_exec env_example [VStr ''/cat'', VStr ''x'']
       = (Return (RaisePack E_INVARG ''Does not exist'' zero), [])
   \<and> bf_exec env_example [VStr ''/ls'', VStr ''-l'']
       = (Return (RaisePack E_EXEC ''Exec failed'' zero), [Close 3, Close 4, Close 5, Close 6])"
proof -
  have a: "\<exists>a \<in> set [VInt 1]. \<not> is_str a" by simp
  have s: "\<forall>a \<in> set [VStr ''-c'']. is_str a" "\<forall>a \<in> set [VStr ''x'']. is_str a"
    "\<forall>a \<in> set [VStr ''-l'']. is_str a" by simp_all
  have bad: "(\<exists>zs. ''../sh'' = ''..'' @ zs) \<or> (\<exists>ps ss. ''../sh'' = ps @ ''/.'' @ ss)"
    by simp
  have good: "\<not> ((\<exists>zs. ''/cat'' = ''..'' @ zs) \<or> (\<exists>ps ss. ''/cat'' = ps @ ''/.'' @ ss))"
    "\<not> ((\<exists>zs. ''/ls'' = ''..'' @ zs) \<or> (\<exists>ps ss. ''/ls'' = ps @ ''/.'' @ ss))"
    unfolding dotdot_iff [symmetric] strstr_Some_iff [symmetric] by simp_all
  have al: "map Close (allocated_fds env_example) = [Close 3, Close 4, Close 5, Close 6]"
    by (simp add: allocated_fds_def env_example_def)
  from bf_exec_error_cases [of env_example "[VInt 1]"] a
  have 1: "bf_exec env_example [VInt 1] = (Return (ErrorPack E_INVARG), [])" by blast
  from bf_exec_error_cases [of env_example _ "[VStr ''-c'']" "''../sh''"] s(1) bad
  have 2: "bf_exec env_example [VStr ''../sh'', VStr ''-c'']
       = (Return (RaisePack E_INVARG ''Invalid path'' zero), [])" by blast
  have "\<not> stat_ok env_example (BIN_SUBDIR env_example @ ''cat'')"
    by (simp add: env_example_def)
  with bf_exec_error_cases [of env_example _ "[VStr ''x'']" "''/cat''"] s(2) good(1)
  have 3: "bf_exec env_example [VStr ''/cat'', VStr ''x'']
       = (Return (RaisePack E_INVARG ''Does not exist'' zero), [])" by simp
  have "stat_ok env_example (BIN_SUBDIR env_example @ ''ls'')" "pipeErr env_example = None"
    by (simp_all add: env_example_def)
  with bf_exec_error_cases [of env_example _ "[VStr ''-l'']" "''/ls''"] s(3) good(2) al
  have 4: "bf_exec env_example [VStr ''/ls'', VStr ''-l'']
       = (Return (RaisePack E_EXEC ''Exec failed'' zero), [Close 3, Close 4, Close 5, Close 6])"
    by simp
  from 1 2 3 4 show ?thesis by blast
qed

text \<open>
  C10.  The claim is that the count \<open>n\<close> returned by \<open>read\<close> and used as the index of
  the terminator is always below 1000.  The code asks \<open>read\<close> for \<open>sizeof(buffer)\<close>,
  that is 1000, bytes: when the child has written 1000 bytes or more to its standard
  output, \<open>read\<close> returns 1000 and the store \<open>buffer[1000]\<close> is one past the end of the
  array.
\<close>

theorem exec_completed_overrun:
  "exec_completed waiters_example pipes_example (replicate 1000 CHR ''x'') 77 0
     = Inl (BufferIndex 1000)"
  by (simp add: exec_completed_def waiters_example_def pipes_example_def sys_read_def
      buffer_set_nul_def)

text \<open>The same in general, and the negative index after a failed \<open>read\<close>.\<close>

lemma exec_completed_full_read:
  assumes "exec_waiters p = Some tw" and "ps (tw_out tw) = Some bytes"
    and "length buffer0 \<le> length bytes"
  shows "exec_completed exec_waiters ps buffer0 p code = Inl (BufferIndex (int (length buffer0)))"
  using assms by (simp add: exec_completed_def sys_read_def buffer_set_nul_def min_def)

lemma exec_completed_failed_read:
  assumes "exec_waiters p = Some tw" and "ps (tw_out tw) = None"
  shows "exec_completed exec_waiters ps buffer0 p code = Inl (BufferIndex (-1))"
  using assms by (simp add: exec_completed_def sys_read_def buffer_set_nul_def)

text \<open>When both reads return fewer bytes than the buffer holds, no fault occurs and
  each string is no longer than the bytes read.\<close>

lemma str_dup_nul:
  assumes "n < length b"
  shows "length (str_dup (b[n := CHR 0x00])) \<le> n"
proof (rule ccontr)
  let ?xs = "b[n := CHR 0x00]"
  let ?t = "takeWhile (\<lambda>c. c \<noteq> CHR 0x00) ?xs"
  assume "\<not> length (str_dup ?xs) \<le> n"
  then have lt: "n < length ?t" by (simp add: str_dup_def)
  then have "?t ! n = ?xs ! n" by (rule takeWhile_nth)
  moreover from lt have "?t ! n \<in> set ?t" by (rule nth_mem)
  ultimately have "?xs ! n \<noteq> CHR 0x00" by (auto dest: set_takeWhileD)
  with assms show False by simp
qed

lemma exec_completed_short_reads:
  assumes "exec_waiters p = Some tw" and "ps (tw_out tw) = Some b1"
    and "ps (tw_err tw) = Some b2"
    and "length b1 < length buffer0" and "length b2 < length buffer0"
  shows "\<exists>out err. exec_completed exec_waiters ps buffer0 p code
            = Inr (Some (p, VList [VInt code, VStr out, VStr err], exec_waiters(p := None),
                         [Close (tw_in tw), Close (tw_out tw), Close (tw_err tw)]))
          \<and> length out \<le> length b1 \<and> length err \<le> length b2"
  using assms
  by (simp add: exec_completed_def sys_read_def buffer_set_nul_def min_def str_dup_nul)

section \<open>Properties of the dump\<close>

lemma generation_name_neq [simp]: "generation_name D g \<noteq> D"
proof
  assume "generation_name D g = D"
  then have "length (generation_name D g) = length D" by simp
  then show False by (simp add: generation_name_def)
qed

lemma generation_name_neq' [simp]: "D \<noteq> generation_name D g"
  using generation_name_neq [of D g] by (rule not_sym)

lemma dump_loop_no_retry:
  "fst (dump_pass cfg reason (env k) g) \<noteq> Retry \<Longrightarrow>
   dump_loop cfg reason env k g evs
     = Some (fst (dump_pass cfg reason (env k) g), fst (snd (dump_pass cfg reason (env k) g)),
             evs @ snd (snd (dump_pass cfg reason (env k) g)))"
  by (subst dump_loop.simps) (simp add: Let_def)

lemma dump_loop_retry:
  "fst (dump_pass cfg reason (env k) g) = Retry \<Longrightarrow>
   dump_loop cfg reason env k g evs
     = dump_loop cfg reason env (k + 1) (fst (snd (dump_pass cfg reason (env k) g)))
         (evs @ snd (snd (dump_pass cfg reason (env k) g)))"
  by (subst dump_loop.simps) (simp add: Let_def)

lemma checkpoint_never_retries: "fst (dump_pass cfg DUMP_CHECKPOINT a g) \<noteq> Retry"
  by (simp add: dump_pass_def finish_def Let_def)

text \<open>
  C2, as the code has it.  When \<open>fopen\<close> succeeded and \<open>write_db_file\<close> failed (the
  "dbio failed" condition), the temporary file is closed and removed, and then: a
  checkpoint (in the forked child, or unforked) is abandoned, with no sleep and no second
  \<open>fopen\<close>, and ends with \<open>success = 0\<close>; every other dump, the shutdown dump and the
  panic dump alike, sleeps 60 seconds and goes on exactly as a dump started afresh with
  the next attempt.
\<close>

theorem dump_write_failure:
  assumes "fopen_ok (env k)" and "\<not> write_ok (env k)"
  shows "(UNFORKED_CHECKPOINTS cfg \<or> fork_result cfg = FORK_CHILD \<longrightarrow>
            (let t = generation_name (dump_db_name cfg) (g + 1) in
             \<exists>pre. TimerSleep 60 \<notin> set pre \<and> (\<forall>n ok. Fopen n ok \<notin> set pre) \<and>
               dump_loop cfg DUMP_CHECKPOINT env k g evs
                 = Some (if UNFORKED_CHECKPOINTS cfg then Returned 0 else Exited 1, g + 1,
                     evs @ pre @
                     [Fopen t True, WriteDb t False (written (env k)),
                      LogPerror ''Trying to dump database'', Fclose t, Remove t,
                      Errlog ''Abandoning checkpoint attempt ...'']
                     @ (if UNFORKED_CHECKPOINTS cfg then [] else [Exit 1]))))
       \<and> (reason \<noteq> DUMP_CHECKPOINT \<longrightarrow>
            (let t = (if reason = DUMP_PANIC then dump_db_name cfg @ ''.PANIC''
                      else generation_name (dump_db_name cfg) (g + 1)) in
             \<exists>pre. dump_loop cfg reason env k g evs
                 = dump_loop cfg reason env (k + 1) (if reason = DUMP_PANIC then g else g + 1)
                     (evs @ pre @
                      [Fopen t True, WriteDb t False (written (env k)),
                       LogPerror ''Trying to dump database'', Fclose t, Remove t,
                       Errlog ''Waiting 60 seconds and retrying dump ...'', TimerSleep 60])))"
proof (intro conjI impI)
  assume f: "UNFORKED_CHECKPOINTS cfg \<or> fork_result cfg = FORK_CHILD"
  let ?pre = "[Remove (generation_name (dump_db_name cfg) g),
      Oklog (reason_names DUMP_CHECKPOINT @ '' on '' @ generation_name (dump_db_name cfg) (g + 1) @ '' ...'')]
      @ (if UNFORKED_CHECKPOINTS cfg then [ResetCommandHistory]
         else [ForkServer FORK_CHILD, SetServerCmdline ''(MOO checkpointer)''])"
  have "dump_loop cfg DUMP_CHECKPOINT env k g evs
      = Some (if UNFORKED_CHECKPOINTS cfg then Returned 0 else Exited 1, g + 1,
          evs @ ?pre @
          [Fopen (generation_name (dump_db_name cfg) (g + 1)) True,
           WriteDb (generation_name (dump_db_name cfg) (g + 1)) False (written (env k)),
           LogPerror ''Trying to dump database'',
           Fclose (generation_name (dump_db_name cfg) (g + 1)),
           Remove (generation_name (dump_db_name cfg) (g + 1)),
           Errlog ''Abandoning checkpoint attempt ...'']
          @ (if UNFORKED_CHECKPOINTS cfg then [] else [Exit 1]))"
    using assms f
    by (subst dump_loop_no_retry [where env=env and k=k, OF checkpoint_never_retries])
       (auto simp: dump_pass_def finish_def Let_def)
  moreover have "TimerSleep 60 \<notin> set ?pre \<and> (\<forall>n ok. Fopen n ok \<notin> set ?pre)" by simp
  ultimately show "let t = generation_name (dump_db_name cfg) (g + 1) in
             \<exists>pre. TimerSleep 60 \<notin> set pre \<and> (\<forall>n ok. Fopen n ok \<notin> set pre) \<and>
               dump_loop cfg DUMP_CHECKPOINT env k g evs
                 = Some (if UNFORKED_CHECKPOINTS cfg then Returned 0 else Exited 1, g + 1,
                     evs @ pre @
                     [Fopen t True, WriteDb t False (written (env k)),
                      LogPerror ''Trying to dump database'', Fclose t, Remove t,
                      Errlog ''Abandoning checkpoint attempt ...'']
                     @ (if UNFORKED_CHECKPOINTS cfg then [] else [Exit 1]))"
    unfolding Let_def by blast
next
  assume r: "reason \<noteq> DUMP_CHECKPOINT"
  have retry: "fst (dump_pass cfg reason (env k) g) = Retry"
    using assms r by (simp add: dump_pass_def Let_def)
  show "let t = (if reason = DUMP_PANIC then dump_db_name cfg @ ''.PANIC''
                      else generation_name (dump_db_name cfg) (g + 1)) in
             \<exists>pre. dump_loop cfg reason env k g evs
                 = dump_loop cfg reason env (k + 1) (if reason = DUMP_PANIC then g else g + 1)
                     (evs @ pre @
                      [Fopen t True, WriteDb t False (written (env k)),
                       LogPerror ''Trying to dump database'', Fclose t, Remove t,
                       Errlog ''Waiting 60 seconds and retrying dump ...'', TimerSleep 60])"
    unfolding Let_def
    apply (subst dump_loop_retry [where env=env and k=k, OF retry])
    using assms r
    apply (simp add: dump_pass_def Let_def)
    apply (metis append_Cons append_Nil)
    done
qed


theorem dump_write_failure_witness:
  "fopen_ok (env_fail_once 0) \<and> \<not> write_ok (env_fail_once 0)
   \<and> (\<exists>pre. TimerSleep 60 \<notin> set pre \<and> (\<forall>n ok. Fopen n ok \<notin> set pre) \<and>
         dump_loop cfg_child DUMP_CHECKPOINT env_fail_once 0 0 []
           = Some (Exited 1, 1,
               pre @ [Fopen ''db.#1#'' True, WriteDb ''db.#1#'' False ''par'',
                      LogPerror ''Trying to dump database'', Fclose ''db.#1#'',
                      Remove ''db.#1#'', Errlog ''Abandoning checkpoint attempt ...'',
                      Exit 1]))
   \<and> (\<exists>pre. dump_loop cfg_child DUMP_SHUTDOWN env_fail_once 0 0 []
           = dump_loop cfg_child DUMP_SHUTDOWN env_fail_once 1 1
               (pre @ [Fopen ''db.#1#'' True, WriteDb ''db.#1#'' False ''par'',
                       LogPerror ''Trying to dump database'', Fclose ''db.#1#'',
                       Remove ''db.#1#'',
                       Errlog ''Waiting 60 seconds and retrying dump ...'', TimerSleep 60]))"
proof -
  have h: "fopen_ok (env_fail_once 0)" "\<not> write_ok (env_fail_once 0)"
    by (simp_all add: env_fail_once_def)
  have n: "generation_name (dump_db_name cfg_child) (0 + 1) = ''db.#1#''"
    by (simp add: generation_name_def cfg_child_def)
  from dump_write_failure [where env = env_fail_once and k = 0 and cfg = cfg_child and g = 0
      and evs = "[]" and reason = DUMP_SHUTDOWN, OF h] h n
  show ?thesis
    by (simp add: Let_def cfg_child_def env_fail_once_def)
qed

text \<open>
  C2, as stated, fails for the panic dump: the claim has it give up without retrying.
  A panic dump whose first \<open>write_db_file\<close> fails sleeps 60 seconds, runs the whole
  dump again and, the second attempt succeeding, returns 1.
\<close>

theorem panic_dump_retries:
  "dump_database cfg_child DUMP_PANIC env_fail_once 0
     = Some (Returned 1, 0,
         [Remove ''db.#0#'', Oklog ''PANIC-DUMPING on db.PANIC ...'',
          Fopen ''db.PANIC'' True, WriteDb ''db.PANIC'' False ''par'',
          LogPerror ''Trying to dump database'', Fclose ''db.PANIC'', Remove ''db.PANIC'',
          Errlog ''Waiting 60 seconds and retrying dump ...'', TimerSleep 60,
          Remove ''db.#0#'', Oklog ''PANIC-DUMPING on db.PANIC ...'',
          Fopen ''db.PANIC'' True, WriteDb ''db.PANIC'' True ''image'',
          Fflush ''db.PANIC'', Fsync ''db.PANIC'', Fclose ''db.PANIC'',
          Oklog ''PANIC-DUMPING on db.PANIC finished''])"
  unfolding dump_database_def
  apply (subst dump_loop.simps)
  apply (subst dump_loop.simps)
  apply (simp add: dump_pass_def cfg_child_def env_fail_once_def finish_def generation_name_def
      Let_def)
  done

lemma checkpoint_is_one_pass:
  "dump_database cfg DUMP_CHECKPOINT env g
     = Some (fst (dump_pass cfg DUMP_CHECKPOINT (env 0) g),
             fst (snd (dump_pass cfg DUMP_CHECKPOINT (env 0) g)),
             snd (snd (dump_pass cfg DUMP_CHECKPOINT (env 0) g)))"
  unfolding dump_database_def
  by (subst dump_loop_no_retry [where env=env and k=0, OF checkpoint_never_retries]) simp


lemma take_subset_takeWhile:
  "\<forall>x \<in> set (take k xs). P x \<Longrightarrow> set (take k xs) \<subseteq> set (takeWhile P xs)"
proof (induction xs arbitrary: k)
  case Nil
  then show ?case by simp
next
  case (Cons x xs)
  then show ?case by (cases k) auto
qed

text \<open>The files when \<open>remove\<close> may fail; with every \<open>remove\<close> taking effect they are
  those of \<open>run_events\<close>.\<close>

lemma apply_event_rm_all: "apply_event_rm (\<lambda>n. True) e fs = apply_event e fs"
  by (cases e) simp_all

lemma run_events_rm_all: "run_events_rm (\<lambda>n. True) evs fs = run_events evs fs"
  unfolding run_events_rm_def run_events_def
  by (induction evs arbitrary: fs) (simp_all add: apply_event_rm_all)

lemma apply_event_rm_untouched: "\<not> touches D e \<Longrightarrow> apply_event_rm rm_ok e fs D = fs D"
  by (cases e) auto

lemma run_events_rm_untouched:
  "\<forall>e \<in> set evs. \<not> touches D e \<Longrightarrow> run_events_rm rm_ok evs fs D = fs D"
  unfolding run_events_rm_def
  by (induction evs arbitrary: fs) (simp_all add: apply_event_rm_untouched)

lemma run_events_rm_append:
  "run_events_rm rm_ok (xs @ ys) fs = run_events_rm rm_ok ys (run_events_rm rm_ok xs fs)"
  by (simp add: run_events_rm_def)

lemma run_events_rm_snoc:
  "run_events_rm rm_ok (xs @ [e]) fs = apply_event_rm rm_ok e (run_events_rm rm_ok xs fs)"
  by (simp add: run_events_rm_def)

lemma run_events_rm_snoc2:
  "run_events_rm rm_ok (xs @ [e, e']) fs
     = apply_event_rm rm_ok e' (apply_event_rm rm_ok e (run_events_rm rm_ok xs fs))"
  by (simp add: run_events_rm_def)

text \<open>The calls of a checkpoint pass: none before \<open>remove(dump_db_name)\<close> acts on the
  dump file.\<close>

lemma checkpoint_pass_before_remove:
  "\<forall>e \<in> set (takeWhile (\<lambda>e. e \<noteq> Remove (dump_db_name cfg))
               (snd (snd (dump_pass cfg DUMP_CHECKPOINT a g)))).
     \<not> touches (dump_db_name cfg) e"
  by (simp add: dump_pass_def finish_def Let_def)

lemma failed_pass_no_remove:
  assumes "\<not> fopen_ok a \<or> \<not> write_ok a"
  shows "Remove (dump_db_name cfg) \<notin> set (snd (snd (dump_pass cfg DUMP_CHECKPOINT a g)))"
  using assms by (auto simp: dump_pass_def finish_def Let_def)

lemma failed_child_exits_1:
  assumes "\<not> fopen_ok a \<or> \<not> write_ok a"
    and "\<not> UNFORKED_CHECKPOINTS cfg" and "fork_result cfg = FORK_CHILD"
  shows "fst (dump_pass cfg DUMP_CHECKPOINT a g) = Exited 1"
  using assms by (auto simp: dump_pass_def finish_def Let_def)

lemma checkpoint_pass_prefix_untouched_rm:
  assumes "Remove (dump_db_name cfg) \<notin> set (take k (snd (snd (dump_pass cfg DUMP_CHECKPOINT a g))))"
  shows "run_events_rm rm_ok (take k (snd (snd (dump_pass cfg DUMP_CHECKPOINT a g)))) fs
           (dump_db_name cfg) = fs (dump_db_name cfg)"
proof -
  let ?evs = "snd (snd (dump_pass cfg DUMP_CHECKPOINT a g))"
  from assms have "\<forall>e \<in> set (take k ?evs). e \<noteq> Remove (dump_db_name cfg)" by auto
  then have "set (take k ?evs) \<subseteq> set (takeWhile (\<lambda>e. e \<noteq> Remove (dump_db_name cfg)) ?evs)"
    by (rule take_subset_takeWhile)
  with checkpoint_pass_before_remove [of cfg a g]
  have "\<forall>e \<in> set (take k ?evs). \<not> touches (dump_db_name cfg) e" by blast
  then show ?thesis by (rule run_events_rm_untouched)
qed

text \<open>A checkpoint pass whose \<open>fopen\<close> and \<open>write_db_file\<close> succeed.\<close>

lemma checkpoint_pass_remove_rename:
  assumes run: "UNFORKED_CHECKPOINTS cfg \<or> fork_result cfg = FORK_CHILD"
    and ok: "fopen_ok a" "write_ok a"
  shows "\<exists>pre post.
      snd (snd (dump_pass cfg DUMP_CHECKPOINT a g))
        = pre @ [Remove (dump_db_name cfg),
                 Rename (generation_name (dump_db_name cfg) (g + 1)) (dump_db_name cfg)
                   (rename_ok a)] @ post
      \<and> (\<forall>e \<in> set pre. \<not> touches (dump_db_name cfg) e)
      \<and> (\<forall>e \<in> set post. \<not> touches (dump_db_name cfg) e)
      \<and> run_events_rm rm_ok pre fs (generation_name (dump_db_name cfg) (g + 1))
          = Some (written a)"
proof -
  let ?D = "dump_db_name cfg"
  let ?t = "generation_name ?D (g + 1)"
  define pre where "pre =
     [Remove (generation_name ?D g), Oklog (reason_names DUMP_CHECKPOINT @ '' on '' @ ?t @ '' ...'')]
     @ (if UNFORKED_CHECKPOINTS cfg then [ResetCommandHistory]
        else [ForkServer FORK_CHILD, SetServerCmdline ''(MOO checkpointer)''])
     @ [Fopen ?t True, WriteDb ?t True (written a), Fflush ?t, Fsync ?t, Fclose ?t,
        Oklog (reason_names DUMP_CHECKPOINT @ '' on '' @ ?t @ '' finished'')]"
  define post where "post =
     (if rename_ok a then [] else [LogPerror ''Renaming temporary dump file''])
     @ (if UNFORKED_CHECKPOINTS cfg then [] else [Exit (if rename_ok a then 0 else 1)])"
  have 1: "snd (snd (dump_pass cfg DUMP_CHECKPOINT a g))
        = pre @ [Remove ?D, Rename ?t ?D (rename_ok a)] @ post"
    using run ok by (auto simp: dump_pass_def finish_def Let_def pre_def post_def)
  have 2: "\<forall>e \<in> set pre. \<not> touches ?D e" by (simp add: pre_def)
  have 3: "\<forall>e \<in> set post. \<not> touches ?D e" by (simp add: post_def)
  have 4: "run_events_rm rm_ok pre fs ?t = Some (written a)"
    by (simp add: pre_def run_events_rm_def)
  from 1 2 3 4 show ?thesis by blast
qed

lemma checkpoint_pass_result:
  assumes "UNFORKED_CHECKPOINTS cfg \<or> fork_result cfg = FORK_CHILD"
    and "fopen_ok a" "write_ok a"
  shows "fst (dump_pass cfg DUMP_CHECKPOINT a g)
     = (if UNFORKED_CHECKPOINTS cfg then Returned (if rename_ok a then 1 else 0)
        else Exited (if rename_ok a then 0 else 1))"
  using assms by (auto simp: dump_pass_def finish_def Let_def)

text \<open>
  C1, as the code has it.  A checkpoint always ends after one pass.  Whether or not
  \<open>remove\<close> takes effect (\<open>rm_ok\<close>; the code does not look at its result):

  \<^item> if the process stops after any number \<open>k\<close> of its calls that does not include the
    call \<open>remove(dump_db_name)\<close>, the dump file has the content it had at the start;

  \<^item> a checkpoint child whose \<open>fopen\<close> or whose serialization fails exits with status 1
    and leaves the dump file as it was;

  \<^item> a checkpoint whose \<open>fopen\<close> and serialization succeed calls
    \<open>remove(dump_db_name)\<close> and \<open>rename(temp_name, dump_db_name)\<close> one right after the
    other, and none of its other calls acts on the dump file.  After the \<open>remove\<close> there
    is no dump file when the \<open>remove\<close> took effect, and the old one when it did not.  At
    the end the dump file is the image written when the \<open>rename\<close> succeeded; when it
    failed the dump file is absent (the old one, when the \<open>remove\<close> had no effect
    either).  The result is success exactly when the \<open>rename\<close> succeeded.
\<close>

theorem checkpoint_dump_file_untouched:
  "\<exists>r g' evs. dump_database cfg DUMP_CHECKPOINT env g = Some (r, g', evs)
     \<and> (\<forall>k. Remove (dump_db_name cfg) \<notin> set (take k evs) \<longrightarrow>
            run_events_rm rm_ok (take k evs) fs (dump_db_name cfg) = fs (dump_db_name cfg))
     \<and> (\<not> UNFORKED_CHECKPOINTS cfg \<and> fork_result cfg = FORK_CHILD
          \<and> (\<not> fopen_ok (env 0) \<or> \<not> write_ok (env 0)) \<longrightarrow>
            r = Exited 1
            \<and> run_events_rm rm_ok evs fs (dump_db_name cfg) = fs (dump_db_name cfg))
     \<and> ((UNFORKED_CHECKPOINTS cfg \<or> fork_result cfg = FORK_CHILD)
          \<and> fopen_ok (env 0) \<and> write_ok (env 0) \<longrightarrow>
            r = (if UNFORKED_CHECKPOINTS cfg then Returned (if rename_ok (env 0) then 1 else 0)
                 else Exited (if rename_ok (env 0) then 0 else 1))
            \<and> (\<exists>pre post.
                  evs = pre @ [Remove (dump_db_name cfg),
                               Rename (generation_name (dump_db_name cfg) (g + 1))
                                 (dump_db_name cfg) (rename_ok (env 0))] @ post
                  \<and> (\<forall>e \<in> set pre. \<not> touches (dump_db_name cfg) e)
                  \<and> (\<forall>e \<in> set post. \<not> touches (dump_db_name cfg) e)
                  \<and> run_events_rm rm_ok (pre @ [Remove (dump_db_name cfg)]) fs (dump_db_name cfg)
                      = (if rm_ok (dump_db_name cfg) then None else fs (dump_db_name cfg))
                  \<and> run_events_rm rm_ok evs fs (dump_db_name cfg)
                      = (if rename_ok (env 0) then Some (written (env 0))
                         else if rm_ok (dump_db_name cfg) then None
                         else fs (dump_db_name cfg))))"
proof -
  let ?p = "dump_pass cfg DUMP_CHECKPOINT (env 0) g"
  let ?D = "dump_db_name cfg"
  let ?t = "generation_name ?D (g + 1)"
  have 1: "dump_database cfg DUMP_CHECKPOINT env g = Some (fst ?p, fst (snd ?p), snd (snd ?p))"
    by (rule checkpoint_is_one_pass)
  have 2: "\<forall>k. Remove ?D \<notin> set (take k (snd (snd ?p))) \<longrightarrow>
            run_events_rm rm_ok (take k (snd (snd ?p))) fs ?D = fs ?D"
    using checkpoint_pass_prefix_untouched_rm by blast
  have 3: "fst ?p = Exited 1 \<and> run_events_rm rm_ok (snd (snd ?p)) fs ?D = fs ?D"
    if "\<not> UNFORKED_CHECKPOINTS cfg \<and> fork_result cfg = FORK_CHILD
          \<and> (\<not> fopen_ok (env 0) \<or> \<not> write_ok (env 0))"
  proof -
    from that have "Remove ?D \<notin> set (take (length (snd (snd ?p))) (snd (snd ?p)))"
      using failed_pass_no_remove [of "env 0" cfg g] by simp
    from checkpoint_pass_prefix_untouched_rm [OF this]
    have "run_events_rm rm_ok (snd (snd ?p)) fs ?D = fs ?D" by simp
    with that failed_child_exits_1 [of "env 0" cfg g] show ?thesis by blast
  qed
  have 4: "fst ?p = (if UNFORKED_CHECKPOINTS cfg then Returned (if rename_ok (env 0) then 1 else 0)
                 else Exited (if rename_ok (env 0) then 0 else 1))
      \<and> (\<exists>pre post.
            snd (snd ?p) = pre @ [Remove ?D, Rename ?t ?D (rename_ok (env 0))] @ post
            \<and> (\<forall>e \<in> set pre. \<not> touches ?D e)
            \<and> (\<forall>e \<in> set post. \<not> touches ?D e)
            \<and> run_events_rm rm_ok (pre @ [Remove ?D]) fs ?D
                = (if rm_ok ?D then None else fs ?D)
            \<and> run_events_rm rm_ok (snd (snd ?p)) fs ?D
                = (if rename_ok (env 0) then Some (written (env 0))
                   else if rm_ok ?D then None else fs ?D))"
    if h: "(UNFORKED_CHECKPOINTS cfg \<or> fork_result cfg = FORK_CHILD)
          \<and> fopen_ok (env 0) \<and> write_ok (env 0)"
  proof -
    from h have run: "UNFORKED_CHECKPOINTS cfg \<or> fork_result cfg = FORK_CHILD"
      and ok: "fopen_ok (env 0)" "write_ok (env 0)" by simp_all
    from checkpoint_pass_remove_rename [OF run ok, of g rm_ok fs]
    obtain pre post where
      e: "snd (snd ?p) = pre @ [Remove ?D, Rename ?t ?D (rename_ok (env 0))] @ post"
      and pre: "\<forall>e \<in> set pre. \<not> touches ?D e"
      and post: "\<forall>e \<in> set post. \<not> touches ?D e"
      and t: "run_events_rm rm_ok pre fs ?t = Some (written (env 0))"
      by blast
    have preD: "run_events_rm rm_ok pre fs ?D = fs ?D"
      using pre by (rule run_events_rm_untouched)
    have a: "run_events_rm rm_ok (pre @ [Remove ?D]) fs ?D = (if rm_ok ?D then None else fs ?D)"
      by (simp add: run_events_rm_snoc preD)
    have "run_events_rm rm_ok (snd (snd ?p)) fs ?D
        = run_events_rm rm_ok (pre @ [Remove ?D, Rename ?t ?D (rename_ok (env 0))]) fs ?D"
      unfolding e append_assoc [symmetric]
      by (subst run_events_rm_append) (rule run_events_rm_untouched [OF post])
    also have "\<dots> = (if rename_ok (env 0) then Some (written (env 0))
                   else if rm_ok ?D then None else fs ?D)"
      using t preD by (simp add: run_events_rm_snoc2)
    finally have b: "run_events_rm rm_ok (snd (snd ?p)) fs ?D
        = (if rename_ok (env 0) then Some (written (env 0))
           else if rm_ok ?D then None else fs ?D)" .
    from checkpoint_pass_result [OF run ok, of g] e pre post a b show ?thesis by blast
  qed
  from 1 2 3 4 show ?thesis by blast
qed

theorem checkpoint_dump_file_untouched_witness:
  "(\<exists>r g' evs. dump_database cfg_child DUMP_CHECKPOINT env_fail_once 0 = Some (r, g', evs)
      \<and> Remove ''db'' \<notin> set (take 6 evs)
      \<and> run_events_rm (\<lambda>n. True) (take 6 evs) files_example ''db'' = Some ''old image''
      \<and> r = Exited 1
      \<and> run_events_rm (\<lambda>n. True) evs files_example ''db'' = Some ''old image'')
   \<and> (\<exists>g' pre post.
        dump_database cfg_child DUMP_CHECKPOINT env_ok 0
          = Some (Exited 0, g', pre @ [Remove ''db'', Rename ''db.#1#'' ''db'' True] @ post)
        \<and> run_events_rm (\<lambda>n. True) (pre @ [Remove ''db'']) files_example ''db'' = None
        \<and> run_events_rm (\<lambda>n. True)
             (pre @ [Remove ''db'', Rename ''db.#1#'' ''db'' True] @ post) files_example ''db''
            = Some ''image'')
   \<and> (\<exists>g' pre post.
        dump_database cfg_child DUMP_CHECKPOINT env_ok 0
          = Some (Exited 0, g', pre @ [Remove ''db'', Rename ''db.#1#'' ''db'' True] @ post)
        \<and> run_events_rm (\<lambda>n. False) (pre @ [Remove ''db'']) files_example ''db''
            = Some ''old image'')"
proof -
  have D: "dump_db_name cfg_child = ''db''" by (simp add: cfg_child_def)
  have tS: "generation_name ''db'' (Suc 0) = ''db.#1#''"
    by (simp add: generation_name_def)
  have old: "files_example ''db'' = Some ''old image''" by (simp add: files_example_def)
  have child: "\<not> UNFORKED_CHECKPOINTS cfg_child" "fork_result cfg_child = FORK_CHILD"
    by (simp_all add: cfg_child_def)
  have A: "\<exists>r g' evs. dump_database cfg_child DUMP_CHECKPOINT env_fail_once 0 = Some (r, g', evs)
      \<and> Remove ''db'' \<notin> set (take 6 evs)
      \<and> run_events_rm (\<lambda>n. True) (take 6 evs) files_example ''db'' = Some ''old image''
      \<and> r = Exited 1
      \<and> run_events_rm (\<lambda>n. True) evs files_example ''db'' = Some ''old image''"
  proof -
    from checkpoint_dump_file_untouched [where cfg = cfg_child and env = env_fail_once
        and g = 0 and rm_ok = "\<lambda>n. True" and fs = files_example]
    obtain r g' evs where
      d: "dump_database cfg_child DUMP_CHECKPOINT env_fail_once 0 = Some (r, g', evs)"
      and p: "\<forall>k. Remove (dump_db_name cfg_child) \<notin> set (take k evs) \<longrightarrow>
            run_events_rm (\<lambda>n. True) (take k evs) files_example (dump_db_name cfg_child)
              = files_example (dump_db_name cfg_child)"
      and f: "\<not> UNFORKED_CHECKPOINTS cfg_child \<and> fork_result cfg_child = FORK_CHILD
          \<and> (\<not> fopen_ok (env_fail_once 0) \<or> \<not> write_ok (env_fail_once 0)) \<longrightarrow>
            r = Exited 1 \<and> run_events_rm (\<lambda>n. True) evs files_example (dump_db_name cfg_child)
              = files_example (dump_db_name cfg_child)"
      by blast
    have e: "evs = [Remove ''db.#0#'', Oklog ''CHECKPOINTING on db.#1# ...'',
        ForkServer FORK_CHILD, SetServerCmdline ''(MOO checkpointer)'',
        Fopen ''db.#1#'' True, WriteDb ''db.#1#'' False ''par'',
        LogPerror ''Trying to dump database'', Fclose ''db.#1#'', Remove ''db.#1#'',
        Errlog ''Abandoning checkpoint attempt ...'', Exit 1]"
      using d
      by (simp add: checkpoint_is_one_pass dump_pass_def finish_def Let_def cfg_child_def
          env_fail_once_def generation_name_def)
    have r: "Remove ''db'' \<notin> set (take 6 evs)" unfolding e by simp
    with p D have 1: "run_events_rm (\<lambda>n. True) (take 6 evs) files_example ''db''
        = files_example ''db''"
      by metis
    have "\<not> fopen_ok (env_fail_once 0) \<or> \<not> write_ok (env_fail_once 0)"
      by (simp add: env_fail_once_def)
    with f child D have 2: "r = Exited 1
        \<and> run_events_rm (\<lambda>n. True) evs files_example ''db'' = files_example ''db''"
      by metis
    from d r 1 2 old show ?thesis by metis
  qed
  have ok: "(UNFORKED_CHECKPOINTS cfg_child \<or> fork_result cfg_child = FORK_CHILD)
      \<and> fopen_ok (env_ok 0) \<and> write_ok (env_ok 0)"
    by (simp add: cfg_child_def env_ok_def)
  have v: "rename_ok (env_ok 0)" "written (env_ok 0) = ''image''" by (simp_all add: env_ok_def)
  have B: "\<exists>g' pre post.
        dump_database cfg_child DUMP_CHECKPOINT env_ok 0
          = Some (Exited 0, g', pre @ [Remove ''db'', Rename ''db.#1#'' ''db'' True] @ post)
        \<and> run_events_rm (\<lambda>n. True) (pre @ [Remove ''db'']) files_example ''db'' = None
        \<and> run_events_rm (\<lambda>n. True)
             (pre @ [Remove ''db'', Rename ''db.#1#'' ''db'' True] @ post) files_example ''db''
            = Some ''image''"
    using checkpoint_dump_file_untouched [where cfg = cfg_child and env = env_ok
        and g = 0 and rm_ok = "\<lambda>n. True" and fs = files_example] ok
    unfolding D by (simp add: v child tS) blast
  have C: "\<exists>g' pre post.
        dump_database cfg_child DUMP_CHECKPOINT env_ok 0
          = Some (Exited 0, g', pre @ [Remove ''db'', Rename ''db.#1#'' ''db'' True] @ post)
        \<and> run_events_rm (\<lambda>n. False) (pre @ [Remove ''db'']) files_example ''db''
            = Some ''old image''"
    using checkpoint_dump_file_untouched [where cfg = cfg_child and env = env_ok
        and g = 0 and rm_ok = "\<lambda>n. False" and fs = files_example] ok
    unfolding D by (simp add: v child old tS) blast
  from A B C show ?thesis by blast
qed

text \<open>
  C1, as stated, fails: the claim lets the child stop anywhere before the final
  \<open>rename\<close>.  A successful checkpoint calls \<open>remove(dump_db_name)\<close> before
  \<open>rename(temp_name, dump_db_name)\<close>; a child that stops between the two calls (here
  after its first 11 calls, none of them a \<open>rename\<close>) leaves no dump file at all.
\<close>

theorem checkpoint_killed_before_rename:
  "dump_database cfg_child DUMP_CHECKPOINT env_ok 0 = Some (Exited 0, 1, checkpoint_events_example)
   \<and> (\<forall>a b ok. Rename a b ok \<notin> set (take 11 checkpoint_events_example))
   \<and> files_example ''db'' = Some ''old image''
   \<and> run_events (take 11 checkpoint_events_example) files_example ''db'' = None
   \<and> run_events checkpoint_events_example files_example ''db'' = Some ''image''"
  by (simp add: checkpoint_is_one_pass dump_pass_def finish_def Let_def cfg_child_def env_ok_def
      generation_name_def checkpoint_events_example_def run_events_def files_example_def)

lemma to_int32_small: "sz < 2 ^ 31 \<Longrightarrow> to_int32 sz = int sz"
proof -
  assume "sz < 2 ^ 31"
  then have "int sz < 2 ^ 31" by (metis of_nat_less_iff of_nat_numeral of_nat_power)
  then have "signed_take_bit 31 (int sz) = int sz"
    by (intro signed_take_bit_int_eq_self) simp_all
  then show ?thesis by (simp add: to_int32_def signed_of_nat)
qed

lemma to_int32_wraps: "to_int32 (2 ^ 32 - 1) = -1"
  by (simp add: to_int32_def)

text \<open>
  C8, as the code has it.  \<open>db_disk_size\<close> returns the size of the dump file when
  \<open>dump_generation\<close> is not 0 and \<open>stat\<close> succeeds on the dump file; otherwise the size
  of the input file when \<open>stat\<close> succeeds on it; otherwise -1.  The size is returned
  through an \<open>int32\<close>, which is the size itself below \<open>2^31\<close>.  \<open>dump_generation\<close> is
  raised by every pass of a dump that is not a panic dump, when the pass starts: it
  counts dumps started, not dumps that succeeded.
\<close>

theorem db_disk_size_cases:
  "(g \<noteq> 0 \<and> stat D = Some sz \<longrightarrow> db_disk_size stat inp D g = to_int32 sz)
   \<and> ((g = 0 \<or> stat D = None) \<and> stat inp = Some sz \<longrightarrow> db_disk_size stat inp D g = to_int32 sz)
   \<and> ((g = 0 \<or> stat D = None) \<and> stat inp = None \<longrightarrow> db_disk_size stat inp D g = -1)
   \<and> (sz < 2 ^ 31 \<longrightarrow> to_int32 sz = int sz)
   \<and> fst (snd (dump_pass cfg reason a g)) = (if reason = DUMP_PANIC then g else g + 1)"
proof -
  have "fst (snd (dump_pass cfg reason a g)) = (if reason = DUMP_PANIC then g else g + 1)"
    by (simp add: dump_pass_def finish_def Let_def)
  then show ?thesis
    by (auto simp: db_disk_size_def to_int32_small)
qed

theorem db_disk_size_cases_witness:
  "db_disk_size (stat_of files_example) ''in.db'' ''db'' 1 = 9
   \<and> db_disk_size (stat_of files_example) ''in.db'' ''db'' 0 = 5
   \<and> db_disk_size (stat_of Map.empty) ''in.db'' ''db'' 1 = -1"
proof -
  have s: "stat_of files_example ''db'' = Some 9" "stat_of files_example ''in.db'' = Some 5"
    "stat_of Map.empty ''db'' = None" "stat_of Map.empty ''in.db'' = None"
    by (simp_all add: stat_of_def files_example_def)
  have l: "(9::nat) < 2 ^ 31" "(5::nat) < 2 ^ 31" by simp_all
  from db_disk_size_cases [of 1 "stat_of files_example" "''db''" 9 "''in.db''"] s l
  have 1: "db_disk_size (stat_of files_example) ''in.db'' ''db'' 1 = 9" by simp
  from db_disk_size_cases [of 0 "stat_of files_example" "''db''" 5 "''in.db''"] s l
  have 2: "db_disk_size (stat_of files_example) ''in.db'' ''db'' 0 = 5" by simp
  from db_disk_size_cases [of 1 "stat_of Map.empty" "''db''" 0 "''in.db''"] s
  have 3: "db_disk_size (stat_of Map.empty) ''in.db'' ''db'' 1 = -1" by simp
  from 1 2 3 show ?thesis by blast
qed

text \<open>
  C8, as stated, fails twice.  With \<open>dump_generation = 0\<close> the dump file is never
  looked at: when the input file cannot be stat'ed the result is -1 although the dump
  file can.  And the dump file is preferred as soon as a dump was started: after a
  checkpoint whose \<open>fork\<close> failed (no dump has succeeded) the size returned is that of
  the dump file left on disk, 9, not that of the input file, 5.
\<close>

theorem db_disk_size_counterexample:
  "stat_of [''db'' \<mapsto> ''old image''] ''db'' = Some 9
   \<and> db_disk_size (stat_of [''db'' \<mapsto> ''old image'']) ''in.db'' ''db'' 0 = -1
   \<and> dump_database cfg_fork_error DUMP_CHECKPOINT env_ok 0
       = Some (Returned 0, 1, [Remove ''db.#0#'', Oklog ''CHECKPOINTING on db.#1# ...'',
                               ForkServer FORK_ERROR])
   \<and> run_events [Remove ''db.#0#'', Oklog ''CHECKPOINTING on db.#1# ...'', ForkServer FORK_ERROR]
       files_example = files_example
   \<and> stat_of files_example ''in.db'' = Some 5
   \<and> db_disk_size (stat_of files_example) ''in.db'' ''db'' 1 = 9"
  by (simp add: checkpoint_is_one_pass dump_pass_def finish_def Let_def cfg_fork_error_def
      env_ok_def generation_name_def run_events_def files_example_def stat_of_def
      db_disk_size_def to_int32_small fun_upd_idem_iff)

section \<open>Properties of phase 1 of the version 4 validator\<close>

lemma CHECK1_eq:
  "CHECK1 objects oid field set_field name (ob, lg)
     = (if dangling objects (field ob) then set_field NOTHING ob else ob,
        lg @ entry_if objects oid name (field ob))"
  by (simp add: CHECK1_def dangling_def entry_if_def fixed_entry_def Let_def)

lemma not_dangling_NOTHING [simp]: "\<not> dangling objects NOTHING"
  by (simp add: dangling_def)

lemma v4_phase1_body_Some:
  assumes "dbv4_find_object (vs_objects s) (int oid) = Some ob"
  shows "v4_phase1_body oid s
    = s\<lparr>vs_objects := (vs_objects s)[oid := Some (v4_repaired (vs_objects s) ob)],
        vs_fixed_nexts := (if fix_next ob then vs_fixed_nexts s + 1 else vs_fixed_nexts s),
        vs_log := MAYBE_LOG_PROGRESS ''VALIDATE: Done through #%d ...'' oid (vs_log s)
                  @ phase1_entries (vs_objects s) oid ob\<rparr>"
proof -
  have ob: "v4_repaired (vs_objects s) ob
     = fst (CHECK1 (vs_objects s) oid o4_next (\<lambda>v x. x\<lparr>o4_next := v\<rparr>) ''next''
        (CHECK1 (vs_objects s) oid o4_contents (\<lambda>v x. x\<lparr>o4_contents := v\<rparr>) ''contents''
        (CHECK1 (vs_objects s) oid o4_location (\<lambda>v x. x\<lparr>o4_location := v\<rparr>) ''location''
        (CHECK1 (vs_objects s) oid o4_sibling (\<lambda>v x. x\<lparr>o4_sibling := v\<rparr>) ''sibling''
        (CHECK1 (vs_objects s) oid o4_child (\<lambda>v x. x\<lparr>o4_child := v\<rparr>) ''child''
        (CHECK1 (vs_objects s) oid o4_parent (\<lambda>v x. x\<lparr>o4_parent := v\<rparr>) ''parent''
          (if fix_next ob then ob\<lparr>o4_next := NOTHING\<rparr> else ob, lg)))))))" for lg
    by (simp add: CHECK1_eq v4_repaired_def keep_valid_def fix_next_def)
  have lg: "lg @ phase1_entries (vs_objects s) oid ob
     = snd (CHECK1 (vs_objects s) oid o4_next (\<lambda>v x. x\<lparr>o4_next := v\<rparr>) ''next''
        (CHECK1 (vs_objects s) oid o4_contents (\<lambda>v x. x\<lparr>o4_contents := v\<rparr>) ''contents''
        (CHECK1 (vs_objects s) oid o4_location (\<lambda>v x. x\<lparr>o4_location := v\<rparr>) ''location''
        (CHECK1 (vs_objects s) oid o4_sibling (\<lambda>v x. x\<lparr>o4_sibling := v\<rparr>) ''sibling''
        (CHECK1 (vs_objects s) oid o4_child (\<lambda>v x. x\<lparr>o4_child := v\<rparr>) ''child''
        (CHECK1 (vs_objects s) oid o4_parent (\<lambda>v x. x\<lparr>o4_parent := v\<rparr>) ''parent''
          (if fix_next ob then ob\<lparr>o4_next := NOTHING\<rparr> else ob, lg)))))))" for lg
    by (simp add: CHECK1_eq phase1_entries_def fix_next_def entry_if_def)
  show ?thesis
    unfolding v4_phase1_body_def Let_def assms option.case ob [symmetric] lg [symmetric]
      fix_next_def [symmetric]
    by simp
qed


lemma dbv4_find_object_nat:
  "dbv4_find_object objects (int i) = (if i < length objects then objects ! i else None)"
  by (simp add: dbv4_find_object_def)

lemma same_slots_length: "same_slots xs ys \<Longrightarrow> length xs = length ys"
  by (simp add: same_slots_def)

lemma same_slots_nth:
  "same_slots xs ys \<Longrightarrow> i < length ys \<Longrightarrow> (xs ! i = None) = (ys ! i = None)"
  by (simp add: same_slots_def)

lemma same_slots_find:
  assumes "same_slots xs ys"
  shows "(dbv4_find_object xs v = None) = (dbv4_find_object ys v = None)"
proof (cases "v < 0 \<or> v \<ge> int (length ys)")
  case True
  then show ?thesis using same_slots_length [OF assms] by (simp add: dbv4_find_object_def)
next
  case False
  then have "nat v < length ys" by (simp add: nat_less_iff)
  from same_slots_nth [OF assms this] False same_slots_length [OF assms]
  show ?thesis by (simp add: dbv4_find_object_def)
qed

lemma same_slots_dangling: "same_slots xs ys \<Longrightarrow> dangling xs = dangling ys"
proof
  fix v assume "same_slots xs ys"
  then show "dangling xs v = dangling ys v"
    by (simp add: dangling_def same_slots_find)
qed

lemma same_slots_repaired: "same_slots xs ys \<Longrightarrow> v4_repaired xs = v4_repaired ys"
proof
  fix ob assume "same_slots xs ys"
  then have "dangling xs = dangling ys" by (rule same_slots_dangling)
  then show "v4_repaired xs ob = v4_repaired ys ob"
    unfolding v4_repaired_def keep_valid_def by simp
qed

lemma same_slots_entries: "same_slots xs ys \<Longrightarrow> phase1_entries xs = phase1_entries ys"
proof (intro ext)
  fix oid ob assume "same_slots xs ys"
  then have "dangling xs = dangling ys" by (rule same_slots_dangling)
  then show "phase1_entries xs oid ob = phase1_entries ys oid ob"
    unfolding phase1_entries_def entry_if_def by simp
qed

lemma same_slots_map: "same_slots (map (map_option f) xs) xs"
  by (simp add: same_slots_def)

lemma same_slots_refl: "same_slots xs xs"
  by (simp add: same_slots_def)

lemma same_slots_trans: "same_slots xs ys \<Longrightarrow> same_slots ys zs \<Longrightarrow> same_slots xs zs"
  by (simp add: same_slots_def)

lemma MAYBE_LOG_PROGRESS_append:
  "MAYBE_LOG_PROGRESS fmt oid lg = lg @ MAYBE_LOG_PROGRESS fmt oid []"
  by (simp add: MAYBE_LOG_PROGRESS_def)

lemma v4_phase1_body_Some_proj:
  assumes "dbv4_find_object (vs_objects s) (int oid) = Some ob"
  shows "vs_objects (v4_phase1_body oid s)
           = (vs_objects s)[oid := Some (v4_repaired (vs_objects s) ob)]"
    and "vs_broken (v4_phase1_body oid s) = vs_broken s"
    and "vs_fixed_nexts (v4_phase1_body oid s)
           = (if fix_next ob then vs_fixed_nexts s + 1 else vs_fixed_nexts s)"
    and "vs_log (v4_phase1_body oid s)
           = vs_log s @ MAYBE_LOG_PROGRESS ''VALIDATE: Done through #%d ...'' oid []
             @ phase1_entries (vs_objects s) oid ob"
  unfolding v4_phase1_body_Some [OF assms]
  by (simp_all add: MAYBE_LOG_PROGRESS_append [of _ _ "vs_log s"])

lemma v4_phase1_body_None_proj:
  assumes "dbv4_find_object (vs_objects s) (int oid) = None"
  shows "vs_objects (v4_phase1_body oid s) = vs_objects s"
    and "vs_broken (v4_phase1_body oid s) = vs_broken s"
    and "vs_fixed_nexts (v4_phase1_body oid s) = vs_fixed_nexts s"
    and "vs_log (v4_phase1_body oid s)
           = vs_log s @ MAYBE_LOG_PROGRESS ''VALIDATE: Done through #%d ...'' oid []"
  unfolding v4_phase1_body_def Let_def assms option.case
  by (simp_all add: MAYBE_LOG_PROGRESS_append [of _ _ "vs_log s"])

text \<open>The state after the first \<open>k\<close> rounds of the loop of phase 1.\<close>

lemma v4_phase1_rounds:
  assumes "k \<le> length (vs_objects s)"
  shows "vs_objects (fold v4_phase1_body [0 ..< k] s)
           = map (map_option (v4_repaired (vs_objects s))) (take k (vs_objects s))
             @ drop k (vs_objects s)
       \<and> vs_broken (fold v4_phase1_body [0 ..< k] s) = vs_broken s
       \<and> vs_fixed_nexts (fold v4_phase1_body [0 ..< k] s)
           = vs_fixed_nexts s + int (length (filter fixable (take k (vs_objects s))))
       \<and> vs_log (fold v4_phase1_body [0 ..< k] s)
           = vs_log s @ concat (map (slot_log (vs_objects s)) [0 ..< k])"
  using assms
proof (induction k)
  case 0
  then show ?case by simp
next
  case (Suc k)
  let ?objs = "vs_objects s"
  let ?tk = "map (map_option (v4_repaired ?objs)) (take k ?objs) @ drop k ?objs"
  define sk where "sk = fold v4_phase1_body [0 ..< k] s"
  from Suc.prems have k: "k < length ?objs" by simp
  with Suc.IH have ih: "vs_objects sk = ?tk" "vs_broken sk = vs_broken s"
    "vs_fixed_nexts sk = vs_fixed_nexts s + int (length (filter fixable (take k ?objs)))"
    "vs_log sk = vs_log s @ concat (map (slot_log ?objs) [0 ..< k])"
    unfolding sk_def by simp_all
  have tk_len: "length ?tk = length ?objs" using k by simp
  have tk_k: "?tk ! k = ?objs ! k" using k by (simp add: nth_append)
  have ss: "same_slots ?tk ?objs"
    unfolding same_slots_def using k by (auto simp: nth_append)
  have step: "fold v4_phase1_body [0 ..< Suc k] s = v4_phase1_body k sk"
    unfolding sk_def by simp
  have take_Suc: "take (Suc k) ?objs = take k ?objs @ [?objs ! k]"
    using k by (simp add: take_Suc_conv_app_nth)
  have upd: "?tk[k := x] = map (map_option (v4_repaired ?objs)) (take k ?objs) @ x # drop (Suc k) ?objs" for x
    using k by (simp add: list_update_append Cons_nth_drop_Suc [symmetric])
  have upt: "concat (map f [0 ..< Suc k]) = concat (map f [0 ..< k]) @ f k" for f :: "nat \<Rightarrow> log_entry list"
    by simp
  show ?case
  proof (cases "?objs ! k")
    case None
    then have f: "dbv4_find_object (vs_objects sk) (int k) = None"
      using k tk_len tk_k by (simp add: ih(1) dbv4_find_object_nat)
    have "drop k ?objs = None # drop (Suc k) ?objs"
      using k None by (metis Cons_nth_drop_Suc)
    then have t: "map (map_option (v4_repaired ?objs)) (take (Suc k) ?objs) @ drop (Suc k) ?objs = ?tk"
      by (simp add: take_Suc None)
    have sl: "slot_log ?objs k = MAYBE_LOG_PROGRESS ''VALIDATE: Done through #%d ...'' k []"
      by (simp add: slot_log_def None)
    have fx: "filter fixable (take (Suc k) ?objs) = filter fixable (take k ?objs)"
      by (simp add: take_Suc None fixable_def)
    show ?thesis
      unfolding step v4_phase1_body_None_proj [OF f] t ih upt sl fx by simp
  next
    case (Some ob)
    then have f: "dbv4_find_object (vs_objects sk) (int k) = Some ob"
      using k tk_len tk_k by (simp add: ih(1) dbv4_find_object_nat)
    have sl: "slot_log ?objs k = MAYBE_LOG_PROGRESS ''VALIDATE: Done through #%d ...'' k []
        @ phase1_entries ?objs k ob"
      by (simp add: slot_log_def Some)
    have fx: "int (length (filter fixable (take (Suc k) ?objs)))
        = (if fix_next ob then int (length (filter fixable (take k ?objs))) + 1
           else int (length (filter fixable (take k ?objs))))"
      by (simp add: take_Suc Some fixable_def)
    have t: "map (map_option (v4_repaired ?objs)) (take (Suc k) ?objs) @ drop (Suc k) ?objs
        = map (map_option (v4_repaired ?objs)) (take k ?objs)
          @ Some (v4_repaired ?objs ob) # drop (Suc k) ?objs"
      by (simp add: take_Suc Some)
    show ?thesis
      unfolding step v4_phase1_body_Some_proj [OF f] ih same_slots_repaired [OF ss]
        same_slots_entries [OF ss] upd upt sl fx t
      by simp
  qed
qed


text \<open>The whole of phase 1.\<close>

lemma v4_validate_phase1_result:
  "vs_objects (v4_validate_phase1 s)
       = map (map_option (v4_repaired (vs_objects s))) (vs_objects s)"
  "vs_broken (v4_validate_phase1 s) = vs_broken s"
  "vs_fixed_nexts (v4_validate_phase1 s)
       = vs_fixed_nexts s + int (length (filter fixable (vs_objects s)))"
  "vs_log (v4_validate_phase1 s)
       = vs_log s @ [oklog ''VALIDATE: Phase 1: Check for invalid objects ...'' []]
         @ concat (map (slot_log (vs_objects s)) [0 ..< length (vs_objects s)])
         @ (if vs_fixed_nexts (v4_validate_phase1 s) \<noteq> 0
            then [errlog ''VALIDATE: Fixed %d should-be-null next pointer(s) ...''
                    [LInt (vs_fixed_nexts (v4_validate_phase1 s))]]
            else [])"
proof -
  define s0 where
    "s0 = s\<lparr>vs_log := vs_log s @ [oklog ''VALIDATE: Phase 1: Check for invalid objects ...'' []]\<rparr>"
  define s1 where "s1 = fold v4_phase1_body [0 ..< length (vs_objects s)] s0"
  have s0: "vs_objects s0 = vs_objects s" "vs_broken s0 = vs_broken s"
    "vs_fixed_nexts s0 = vs_fixed_nexts s"
    "vs_log s0 = vs_log s @ [oklog ''VALIDATE: Phase 1: Check for invalid objects ...'' []]"
    by (simp_all add: s0_def)
  have "length (vs_objects s) \<le> length (vs_objects s0)" by (simp add: s0)
  from v4_phase1_rounds [OF this]
  have s1: "vs_objects s1 = map (map_option (v4_repaired (vs_objects s))) (vs_objects s)"
    "vs_broken s1 = vs_broken s"
    "vs_fixed_nexts s1 = vs_fixed_nexts s + int (length (filter fixable (vs_objects s)))"
    "vs_log s1 = vs_log s @ [oklog ''VALIDATE: Phase 1: Check for invalid objects ...'' []]
         @ concat (map (slot_log (vs_objects s)) [0 ..< length (vs_objects s)])"
    unfolding s1_def [symmetric] s0 by simp_all
  have p: "v4_validate_phase1 s
      = (if vs_fixed_nexts s1 \<noteq> 0
         then s1\<lparr>vs_log := vs_log s1 @
                  [errlog ''VALIDATE: Fixed %d should-be-null next pointer(s) ...''
                     [LInt (vs_fixed_nexts s1)]]\<rparr>
         else s1)"
    unfolding v4_validate_phase1_def Let_def s0_def [symmetric] s1_def [symmetric] ..
  show "vs_objects (v4_validate_phase1 s)
       = map (map_option (v4_repaired (vs_objects s))) (vs_objects s)"
    unfolding p using s1(1) by simp
  show "vs_broken (v4_validate_phase1 s) = vs_broken s"
    unfolding p using s1(2) by simp
  show f: "vs_fixed_nexts (v4_validate_phase1 s)
       = vs_fixed_nexts s + int (length (filter fixable (vs_objects s)))"
    unfolding p using s1(3) by simp
  have "vs_fixed_nexts (v4_validate_phase1 s) = vs_fixed_nexts s1"
    using f s1(3) by simp
  then show "vs_log (v4_validate_phase1 s)
       = vs_log s @ [oklog ''VALIDATE: Phase 1: Check for invalid objects ...'' []]
         @ concat (map (slot_log (vs_objects s)) [0 ..< length (vs_objects s)])
         @ (if vs_fixed_nexts (v4_validate_phase1 s) \<noteq> 0
            then [errlog ''VALIDATE: Fixed %d should-be-null next pointer(s) ...''
                    [LInt (vs_fixed_nexts (v4_validate_phase1 s))]]
            else [])"
    unfolding p using s1(4) by simp
qed

lemma slot_log_logged:
  assumes "i < length (vs_objects s)" and "e \<in> set (slot_log (vs_objects s) i)"
  shows "e \<in> set (vs_log (v4_validate_phase1 s))"
proof -
  from assms have "e \<in> set (concat (map (slot_log (vs_objects s)) [0 ..< length (vs_objects s)]))"
    by auto
  then show ?thesis unfolding v4_validate_phase1_result(4) by simp
qed

lemma fixable_count_pos:
  assumes "i < length objects" and "fixable (objects ! i)"
  shows "0 < length (filter fixable objects)"
  using assms by (metis filter_empty_conv length_greater_0_conv nth_mem)

lemma entry_if_dangling:
  "dangling objects v \<Longrightarrow> fixed_entry oid name v \<in> set (entry_if objects oid name v)"
  by (simp add: entry_if_def)

lemma repaired_fields:
  "dangling objects (o4_parent ob) \<Longrightarrow>
     o4_parent (v4_repaired objects ob) = NOTHING
     \<and> fixed_entry oid ''parent'' (o4_parent ob) \<in> set (phase1_entries objects oid ob)"
  "dangling objects (o4_child ob) \<Longrightarrow>
     o4_child (v4_repaired objects ob) = NOTHING
     \<and> fixed_entry oid ''child'' (o4_child ob) \<in> set (phase1_entries objects oid ob)"
  "dangling objects (o4_sibling ob) \<Longrightarrow>
     o4_sibling (v4_repaired objects ob) = NOTHING
     \<and> fixed_entry oid ''sibling'' (o4_sibling ob) \<in> set (phase1_entries objects oid ob)"
  "dangling objects (o4_location ob) \<Longrightarrow>
     o4_location (v4_repaired objects ob) = NOTHING
     \<and> fixed_entry oid ''location'' (o4_location ob) \<in> set (phase1_entries objects oid ob)"
  "dangling objects (o4_contents ob) \<Longrightarrow>
     o4_contents (v4_repaired objects ob) = NOTHING
     \<and> fixed_entry oid ''contents'' (o4_contents ob) \<in> set (phase1_entries objects oid ob)"
  by (simp_all add: v4_repaired_def keep_valid_def phase1_entries_def entry_if_dangling)

lemma repaired_next:
  "dangling objects (o4_next ob) \<Longrightarrow>
     o4_next (v4_repaired objects ob) = NOTHING
     \<and> (o4_location ob \<noteq> NOTHING \<longrightarrow>
          fixed_entry oid ''next'' (o4_next ob) \<in> set (phase1_entries objects oid ob))"
  by (simp add: v4_repaired_def keep_valid_def phase1_entries_def entry_if_dangling fix_next_def)

section \<open>Properties of phase 2 of the version 4 validator\<close>

lemma keep_valid_not_dangling: "\<not> dangling objects (keep_valid objects v)"
  by (simp add: keep_valid_def)

lemma find_map_Some:
  assumes "dbv4_find_object (map (map_option f) objects) v = Some ob1"
  shows "\<exists>ob. dbv4_find_object objects v = Some ob \<and> ob1 = f ob"
  using assms by (auto simp: dbv4_find_object_def split: if_splits)

lemma repaired_sel:
  "o4_parent (v4_repaired objects ob) = keep_valid objects (o4_parent ob)"
  "o4_child (v4_repaired objects ob) = keep_valid objects (o4_child ob)"
  "o4_sibling (v4_repaired objects ob) = keep_valid objects (o4_sibling ob)"
  "o4_location (v4_repaired objects ob) = keep_valid objects (o4_location ob)"
  "o4_contents (v4_repaired objects ob) = keep_valid objects (o4_contents ob)"
  "o4_next (v4_repaired objects ob)
     = (if o4_location ob = NOTHING then NOTHING else keep_valid objects (o4_next ob))"
  "o4_id (v4_repaired objects ob) = o4_id ob"
  "o4_name (v4_repaired objects ob) = o4_name ob"
  "o4_flags (v4_repaired objects ob) = o4_flags ob"
  "o4_owner (v4_repaired objects ob) = o4_owner ob"
  "o4_verbdefs (v4_repaired objects ob) = o4_verbdefs ob"
  "o4_propdefs (v4_repaired objects ob) = o4_propdefs ob"
  "o4_propval (v4_repaired objects ob) = o4_propval ob"
  by (simp_all add: v4_repaired_def)

lemma repaired_not_dangling:
  "\<not> dangling objects (o4_parent (v4_repaired objects ob))"
  "\<not> dangling objects (o4_child (v4_repaired objects ob))"
  "\<not> dangling objects (o4_sibling (v4_repaired objects ob))"
  "\<not> dangling objects (o4_location (v4_repaired objects ob))"
  "\<not> dangling objects (o4_contents (v4_repaired objects ob))"
  "\<not> dangling objects (o4_next (v4_repaired objects ob))"
  by (simp_all add: repaired_sel keep_valid_not_dangling)

lemma phase1_links_valid:
  assumes "\<And>ob. \<not> dangling objects (field (v4_repaired objects ob))"
  shows "links_valid (map (map_option (v4_repaired objects)) objects) field"
  unfolding links_valid_def same_slots_dangling [OF same_slots_map]
  using assms by (auto dest!: find_map_Some)

lemma v4_chain_no_fault:
  assumes "links_valid objects field" and "\<not> dangling objects start"
  shows "\<exists>c. v4_chain objects field sz start count = Inr c"
  using assms
proof (induction objects field sz start count rule: v4_chain.induct)
  case (1 objects field sz oid2 count)
  show ?case
  proof (cases "oid2 = NOTHING \<or> count + 1 > sz")
    case True
    then show ?thesis by (subst v4_chain.simps) auto
  next
    case False
    with "1.prems"(2) obtain o2 where o2: "dbv4_find_object objects oid2 = Some o2"
      by (auto simp: dangling_def)
    with "1.prems"(1) have "\<not> dangling objects (field o2)" by (simp add: links_valid_def)
    with "1.IH" "1.prems"(1) False o2
    obtain c where "v4_chain objects field sz (field o2) (count + 1) = Inr c"
      by auto
    with False o2 show ?thesis by (subst v4_chain.simps) auto
  qed
qed

lemma v4_chain_False_list:
  assumes "v4_chain objects field sz start count = Inr False" and "count \<le> sz"
  shows "\<exists>xs. v4_chain_list objects field start xs \<and> count + length xs \<le> sz"
  using assms
proof (induction objects field sz start count rule: v4_chain.induct)
  case (1 objects field sz oid2 count)
  show ?case
  proof (cases "oid2 = NOTHING")
    case True
    have "v4_chain_list objects field NOTHING []" by (rule chain_end)
    with True "1.prems"(2) show ?thesis by (intro exI [of _ "[]"]) simp
  next
    case False
    from "1.prems"(1) False have le: "\<not> count + 1 > sz"
      by (subst (asm) v4_chain.simps) (auto split: if_splits)
    from "1.prems"(1) False le obtain o2 where o2: "dbv4_find_object objects oid2 = Some o2"
      by (subst (asm) v4_chain.simps) (auto split: option.splits)
    from "1.prems"(1) False le o2
    have rec: "v4_chain objects field sz (field o2) (count + 1) = Inr False"
      by (subst (asm) v4_chain.simps) simp
    from "1.IH" [OF False le o2 rec] le
    obtain xs where xs: "v4_chain_list objects field (field o2) xs" "count + 1 + length xs \<le> sz"
      by auto
    from chain_step [OF False o2 xs(1)] xs(2) show ?thesis
      by (intro exI [of _ "oid2 # xs"]) simp
  qed
qed

lemma v4_chain_list_False:
  assumes "v4_chain_list objects field start xs" and "count + length xs \<le> sz"
  shows "v4_chain objects field sz start count = Inr False"
  using assms
proof (induction arbitrary: count rule: v4_chain_list.induct)
  case chain_end
  show ?case by (subst v4_chain.simps) simp
next
  case (chain_step iter ob xs)
  from chain_step.prems have "v4_chain objects field sz (field ob) (count + 1) = Inr False"
    by (intro chain_step.IH) simp
  with chain_step.hyps(1,2) chain_step.prems show ?case
    by (subst v4_chain.simps) simp
qed

lemma v4_chain_list_functional:
  assumes "v4_chain_list objects field start xs" and "v4_chain_list objects field start ys"
  shows "xs = ys"
  using assms
proof (induction arbitrary: ys rule: v4_chain_list.induct)
  case chain_end
  then show ?case by (auto elim: v4_chain_list.cases)
next
  case (chain_step iter ob xs)
  from chain_step.prems chain_step.hyps(1,2) obtain ys' where
    "ys = iter # ys'" "v4_chain_list objects field (field ob) ys'"
    by (auto elim: v4_chain_list.cases)
  with chain_step.IH show ?case by simp
qed

lemma v4_chain_list_from_member:
  assumes "v4_chain_list objects field start xs" and "x \<in> set xs"
  shows "\<exists>ys. v4_chain_list objects field x ys \<and> length ys \<le> length xs"
  using assms
proof (induction rule: v4_chain_list.induct)
  case chain_end
  then show ?case by simp
next
  case (chain_step iter ob xs)
  show ?case
  proof (cases "x = iter")
    case True
    from v4_chain_list.chain_step [OF chain_step.hyps(1,2,3)] True show ?thesis by auto
  next
    case False
    with chain_step.prems have "x \<in> set xs" by simp
    with chain_step.IH obtain ys where "v4_chain_list objects field x ys" "length ys \<le> length xs"
      by blast
    then show ?thesis by (intro exI [of _ ys]) simp
  qed
qed

lemma v4_chain_list_distinct:
  assumes "v4_chain_list objects field start xs"
  shows "distinct xs"
  using assms
proof (induction rule: v4_chain_list.induct)
  case chain_end
  show ?case by simp
next
  case (chain_step iter ob xs)
  have "iter \<notin> set xs"
  proof
    assume "iter \<in> set xs"
    from v4_chain_list_from_member [OF chain_step.hyps(3) this]
    obtain ys where ys: "v4_chain_list objects field iter ys" "length ys \<le> length xs" by blast
    from v4_chain_list.chain_step [OF chain_step.hyps(1,2,3)] ys(1)
    have "ys = iter # xs" by (rule v4_chain_list_functional [symmetric])
    with ys(2) show False by simp
  qed
  with chain_step.IH show ?case by simp
qed

lemma v4_chain_list_range:
  assumes "v4_chain_list objects field start xs"
  shows "set xs \<subseteq> {0 ..< int (length objects)}"
  using assms
proof (induction rule: v4_chain_list.induct)
  case chain_end
  show ?case by simp
next
  case (chain_step iter ob xs)
  from chain_step.hyps(2) have "0 \<le> iter \<and> iter < int (length objects)"
    by (auto simp: dbv4_find_object_def split: if_splits)
  with chain_step.IH show ?case by simp
qed

lemma v4_chain_list_length:
  assumes "v4_chain_list objects field start xs"
  shows "length xs \<le> length objects"
proof -
  from v4_chain_list_distinct [OF assms] have "length xs = card (set xs)"
    by (simp add: distinct_card)
  also from v4_chain_list_range [OF assms] have "\<dots> \<le> card {0 ..< int (length objects)}"
    by (intro card_mono) simp_all
  finally show ?thesis by simp
qed

text \<open>The test of phase 2 finds a cycle exactly when the chain has no end.\<close>

lemma v4_chain_cycle_iff:
  assumes "links_valid objects field" and "\<not> dangling objects start"
  shows "v4_chain objects field (length objects) start 0 = Inr True
           \<longleftrightarrow> \<not> (\<exists>xs. v4_chain_list objects field start xs)"
proof
  assume t: "v4_chain objects field (length objects) start 0 = Inr True"
  show "\<not> (\<exists>xs. v4_chain_list objects field start xs)"
  proof
    assume "\<exists>xs. v4_chain_list objects field start xs"
    then obtain xs where xs: "v4_chain_list objects field start xs" by blast
    from v4_chain_list_False [OF xs, of 0 "length objects"] v4_chain_list_length [OF xs] t
    show False by simp
  qed
next
  assume n: "\<not> (\<exists>xs. v4_chain_list objects field start xs)"
  from v4_chain_no_fault [OF assms] obtain c where
    c: "v4_chain objects field (length objects) start 0 = Inr c" by blast
  show "v4_chain objects field (length objects) start 0 = Inr True"
  proof (cases c)
    case True
    with c show ?thesis by simp
  next
    case False
    with c v4_chain_False_list [of objects field "length objects" start 0] n show ?thesis
      by auto
  qed
qed


lemma phase1_well_linked: "well_linked (map (map_option (v4_repaired objects)) objects)"
  unfolding well_linked_def
  by (intro conjI phase1_links_valid repaired_not_dangling)

lemma CHECK2_Inr:
  assumes "v4_chain (vs_objects s) field (length (vs_objects s)) start 0 = Inr c"
  shows "\<exists>s'. CHECK2 oid start field name s = Inr s' \<and> vs_objects s' = vs_objects s
           \<and> vs_broken s' = (vs_broken s \<or> c) \<and> vs_fixed_nexts s' = vs_fixed_nexts s"
  using assms by (simp add: CHECK2_def)

lemma then_do_Inr: "m = Inr x \<Longrightarrow> then_do m f = f x"
  by (simp add: then_do_def)

lemma v4_phase2_body_result:
  assumes wl: "well_linked (vs_objects s)"
  shows "\<exists>s'. v4_phase2_body oid s = Inr s' \<and> vs_objects s' = vs_objects s
           \<and> vs_broken s' = (vs_broken s \<or> slot_cycle (vs_objects s) oid)
           \<and> vs_fixed_nexts s' = vs_fixed_nexts s"
proof (cases "dbv4_find_object (vs_objects s) (int oid)")
  case None
  then show ?thesis by (simp add: v4_phase2_body_def slot_cycle_def Let_def)
next
  case (Some ob)
  let ?objs = "vs_objects s"
  let ?n = "length ?objs"
  define s0 where
    "s0 = s\<lparr>vs_log := MAYBE_LOG_PROGRESS ''VALIDATE: Done through #%d ...'' oid (vs_log s)\<rparr>"
  have s0: "vs_objects s0 = ?objs" "vs_broken s0 = vs_broken s"
    "vs_fixed_nexts s0 = vs_fixed_nexts s"
    by (simp_all add: s0_def)
  from wl Some have nd: "\<not> dangling ?objs (o4_parent ob)" "\<not> dangling ?objs (o4_child ob)"
    "\<not> dangling ?objs (o4_location ob)" "\<not> dangling ?objs (o4_contents ob)"
    and lv: "links_valid ?objs o4_parent" "links_valid ?objs o4_sibling"
    "links_valid ?objs o4_location" "links_valid ?objs o4_next"
    unfolding well_linked_def links_valid_def by blast+
  from v4_chain_no_fault [OF lv(1) nd(1)] obtain c1 where
    c1: "v4_chain ?objs o4_parent ?n (o4_parent ob) 0 = Inr c1" by blast
  from v4_chain_no_fault [OF lv(2) nd(2)] obtain c2 where
    c2: "v4_chain ?objs o4_sibling ?n (o4_child ob) 0 = Inr c2" by blast
  from v4_chain_no_fault [OF lv(3) nd(3)] obtain c3 where
    c3: "v4_chain ?objs o4_location ?n (o4_location ob) 0 = Inr c3" by blast
  from v4_chain_no_fault [OF lv(4) nd(4)] obtain c4 where
    c4: "v4_chain ?objs o4_next ?n (o4_contents ob) 0 = Inr c4" by blast
  from CHECK2_Inr [of s0 o4_parent "o4_parent ob" c1 oid "''parent''"] c1 s0
  obtain s1 where s1: "CHECK2 oid (o4_parent ob) o4_parent ''parent'' s0 = Inr s1"
    "vs_objects s1 = ?objs" "vs_broken s1 = (vs_broken s \<or> c1)"
    "vs_fixed_nexts s1 = vs_fixed_nexts s"
    by auto
  from CHECK2_Inr [of s1 o4_sibling "o4_child ob" c2 oid "''child''"] c2 s1
  obtain s2 where s2: "CHECK2 oid (o4_child ob) o4_sibling ''child'' s1 = Inr s2"
    "vs_objects s2 = ?objs" "vs_broken s2 = (vs_broken s \<or> c1 \<or> c2)"
    "vs_fixed_nexts s2 = vs_fixed_nexts s"
    by auto
  from CHECK2_Inr [of s2 o4_location "o4_location ob" c3 oid "''location''"] c3 s2
  obtain s3 where s3: "CHECK2 oid (o4_location ob) o4_location ''location'' s2 = Inr s3"
    "vs_objects s3 = ?objs" "vs_broken s3 = (vs_broken s \<or> c1 \<or> c2 \<or> c3)"
    "vs_fixed_nexts s3 = vs_fixed_nexts s"
    by auto
  from CHECK2_Inr [of s3 o4_next "o4_contents ob" c4 oid "''contents''"] c4 s3
  obtain s4 where s4: "CHECK2 oid (o4_contents ob) o4_next ''contents'' s3 = Inr s4"
    "vs_objects s4 = ?objs" "vs_broken s4 = (vs_broken s \<or> c1 \<or> c2 \<or> c3 \<or> c4)"
    "vs_fixed_nexts s4 = vs_fixed_nexts s"
    by auto
  have "v4_phase2_body oid s = Inr s4"
    unfolding v4_phase2_body_def Let_def Some option.case s0_def [symmetric]
    by (simp add: then_do_Inr [OF s1(1)] then_do_Inr [OF s2(1)] then_do_Inr [OF s3(1)] s4(1))
  moreover have "slot_cycle ?objs oid = (c1 \<or> c2 \<or> c3 \<or> c4)"
    by (simp add: slot_cycle_def Some object_cycle_def c1 c2 c3 c4)
  ultimately show ?thesis using s4 by simp
qed

lemma for_each_phase2_result:
  assumes "well_linked (vs_objects s)"
  shows "\<exists>s'. for_each_oid v4_phase2_body oids s = Inr s' \<and> vs_objects s' = vs_objects s
           \<and> vs_broken s' = (vs_broken s \<or> (\<exists>oid \<in> set oids. slot_cycle (vs_objects s) oid))
           \<and> vs_fixed_nexts s' = vs_fixed_nexts s"
  using assms
proof (induction oids arbitrary: s)
  case Nil
  then show ?case by simp
next
  case (Cons oid oids)
  from v4_phase2_body_result [OF Cons.prems, of oid]
  obtain s1 where s1: "v4_phase2_body oid s = Inr s1" "vs_objects s1 = vs_objects s"
    "vs_broken s1 = (vs_broken s \<or> slot_cycle (vs_objects s) oid)"
    "vs_fixed_nexts s1 = vs_fixed_nexts s"
    by blast
  from Cons.prems s1(2) have "well_linked (vs_objects s1)" by simp
  from Cons.IH [OF this] s1
  obtain s' where s': "for_each_oid v4_phase2_body oids s1 = Inr s'"
    "vs_objects s' = vs_objects s"
    "vs_broken s' = (vs_broken s \<or> slot_cycle (vs_objects s) oid
       \<or> (\<exists>oid \<in> set oids. slot_cycle (vs_objects s) oid))"
    "vs_fixed_nexts s' = vs_fixed_nexts s"
    by auto
  have "for_each_oid v4_phase2_body (oid # oids) s = Inr s'"
    by (simp add: then_do_Inr [OF s1(1)] s'(1))
  with s' show ?case by auto
qed

text \<open>Phase 2 on a table that phase 1 has left.\<close>

lemma v4_validate_phase2_result:
  assumes "well_linked (vs_objects s)"
  shows "\<exists>s'. v4_validate_phase2 s = Inr s' \<and> vs_objects s' = vs_objects s
           \<and> vs_broken s' = (vs_broken s \<or> (\<exists>oid < length (vs_objects s). slot_cycle (vs_objects s) oid))
           \<and> vs_fixed_nexts s' = vs_fixed_nexts s"
proof -
  define s0 where
    "s0 = s\<lparr>vs_log := vs_log s @ [oklog ''VALIDATE: Phase 2: Check for cycles ...'' []]\<rparr>"
  have s0: "vs_objects s0 = vs_objects s" "vs_broken s0 = vs_broken s"
    "vs_fixed_nexts s0 = vs_fixed_nexts s"
    by (simp_all add: s0_def)
  with assms have "well_linked (vs_objects s0)" by simp
  from for_each_phase2_result [OF this, of "[0 ..< length (vs_objects s)]"] s0
  show ?thesis
    unfolding v4_validate_phase2_def s0_def [symmetric] by auto
qed


lemma v4_chain_list_reach:
  assumes "(s, x) \<in> (v4_rel objects field)\<^sup>*" and "v4_chain_list objects field s xs"
    and "s \<noteq> NOTHING"
  shows "x \<in> set xs"
  using assms
proof (induction arbitrary: xs rule: converse_rtrancl_induct)
  case base
  then show ?case by (auto elim: v4_chain_list.cases)
next
  case (step s y)
  from step.hyps(1) obtain ob where ob: "dbv4_find_object objects s = Some ob"
    "field ob = y" "y \<noteq> NOTHING"
    by (auto simp: v4_rel_def)
  from step.prems ob obtain xs' where xs': "xs = s # xs'" "v4_chain_list objects field y xs'"
    by (auto elim: v4_chain_list.cases)
  from step.IH [OF xs'(2) ob(3)] xs'(1) show ?case by simp
qed

lemma dbv4_find_object_NOTHING [simp]: "dbv4_find_object objects NOTHING = None"
  by (simp add: dbv4_find_object_def NOTHING_def)

lemma v4_chain_list_Some:
  assumes "v4_chain_list objects field x ys" and "dbv4_find_object objects x = Some ob"
  shows "\<exists>ys'. ys = x # ys' \<and> v4_chain_list objects field (field ob) ys'"
  using assms by (auto elim: v4_chain_list.cases)

lemma v4_chain_list_no_cycle:
  assumes "v4_chain_list objects field start xs"
  shows "\<not> reaches_cycle objects field start"
proof
  assume "reaches_cycle objects field start"
  then obtain x where x: "start \<noteq> NOTHING" "(start, x) \<in> (v4_rel objects field)\<^sup>*"
    "(x, x) \<in> (v4_rel objects field)\<^sup>+"
    unfolding reaches_cycle_def by blast
  from v4_chain_list_reach [OF x(2) assms x(1)] have "x \<in> set xs" .
  from v4_chain_list_from_member [OF assms this]
  obtain ys where ys: "v4_chain_list objects field x ys" by blast
  from x(3) obtain y where y: "(x, y) \<in> v4_rel objects field" "(y, x) \<in> (v4_rel objects field)\<^sup>*"
    by (meson tranclD)
  from y(1) obtain ob where ob: "dbv4_find_object objects x = Some ob"
    "field ob = y" "y \<noteq> NOTHING"
    by (auto simp: v4_rel_def)
  from v4_chain_list_Some [OF ys ob(1)] ob(2)
  obtain ys' where ys': "ys = x # ys'" "v4_chain_list objects field y ys'"
    by auto
  from v4_chain_list_reach [OF y(2) ys'(2) ob(3)] have "x \<in> set ys'" .
  with v4_chain_list_distinct [OF ys] ys'(1) show False by simp
qed

lemma v4_rel_finite: "links_valid objects field \<Longrightarrow> finite (v4_rel objects field)"
proof -
  assume lv: "links_valid objects field"
  have "v4_rel objects field \<subseteq> {0 ..< int (length objects)} \<times> {0 ..< int (length objects)}"
  proof
    fix p assume "p \<in> v4_rel objects field"
    then obtain x y ob where p: "p = (x, y)" "dbv4_find_object objects x = Some ob"
      "field ob = y" "y \<noteq> NOTHING"
      by (auto simp: v4_rel_def)
    from p(2) have x: "0 \<le> x \<and> x < int (length objects)"
      by (auto simp: dbv4_find_object_def split: if_splits)
    from lv p(2,3,4) have "dbv4_find_object objects y \<noteq> None"
      by (auto simp: links_valid_def dangling_def)
    then have "0 \<le> y \<and> y < int (length objects)"
      by (auto simp: dbv4_find_object_def split: if_splits)
    with x p(1) show "p \<in> {0 ..< int (length objects)} \<times> {0 ..< int (length objects)}"
      by simp
  qed
  then show ?thesis by (rule finite_subset) simp
qed

lemma no_cycle_v4_chain_list:
  assumes lv: "links_valid objects field" and nd: "\<not> dangling objects start"
    and nc: "\<not> reaches_cycle objects field start"
  shows "\<exists>xs. v4_chain_list objects field start xs"
proof (cases "start = NOTHING")
  case True
  then show ?thesis using chain_end [of objects field] by blast
next
  case False
  let ?R = "v4_rel objects field"
  define r where "r = {(x, y). (x, y) \<in> ?R \<and> (start, x) \<in> ?R\<^sup>*}"
  have sub: "r \<subseteq> ?R" by (auto simp: r_def)
  have "finite r" using v4_rel_finite [OF lv] sub by (rule rev_finite_subset)
  moreover have "acyclic r"
  proof (rule acyclicI, rule allI, rule notI)
    fix x assume "(x, x) \<in> r\<^sup>+"
    then have c: "(x, x) \<in> ?R\<^sup>+" using sub by (meson trancl_mono)
    from \<open>(x, x) \<in> r\<^sup>+\<close> obtain y where "(x, y) \<in> r" by (meson tranclD)
    then have "(start, x) \<in> ?R\<^sup>*" by (simp add: r_def)
    with c False nc show False by (auto simp: reaches_cycle_def)
  qed
  ultimately have "wf (r\<inverse>)"
    by (simp add: finite_acyclic_wf_converse)
  then have "(start, x) \<in> ?R\<^sup>* \<longrightarrow> (\<exists>xs. v4_chain_list objects field x xs)" for x
  proof (induction x rule: wf_induct_rule)
    case (less x)
    show ?case
    proof
      assume reach: "(start, x) \<in> ?R\<^sup>*"
      have valid: "x \<noteq> NOTHING \<and> dbv4_find_object objects x \<noteq> None"
      proof (cases "x = start")
        case True
        with False nd show ?thesis by (simp add: dangling_def)
      next
        case False
        with reach obtain z where "(z, x) \<in> ?R" by (auto elim: rtranclE)
        with lv show ?thesis by (auto simp: v4_rel_def links_valid_def dangling_def)
      qed
      then obtain ob where ob: "dbv4_find_object objects x = Some ob" by blast
      show "\<exists>xs. v4_chain_list objects field x xs"
      proof (cases "field ob = NOTHING")
        case True
        from chain_step [of x objects ob field "[]"] valid ob True chain_end [of objects field]
        show ?thesis by auto
      next
        case False
        with ob have e: "(x, field ob) \<in> ?R" by (auto simp: v4_rel_def)
        with reach have "(field ob, x) \<in> r\<inverse>" by (simp add: r_def)
        moreover from reach e have "(start, field ob) \<in> ?R\<^sup>*" by simp
        ultimately obtain xs where "v4_chain_list objects field (field ob) xs"
          using less.IH by blast
        from chain_step [OF _ ob this] valid show ?thesis by blast
      qed
    qed
  qed
  then show ?thesis by blast
qed

lemma v4_chain_cycle_iff_reaches:
  assumes "links_valid objects field" and "\<not> dangling objects start"
  shows "v4_chain objects field (length objects) start 0 = Inr True
           \<longleftrightarrow> reaches_cycle objects field start"
  unfolding v4_chain_cycle_iff [OF assms]
  using v4_chain_list_no_cycle [of objects field start] no_cycle_v4_chain_list [OF assms]
  by blast


section \<open>The repairs of phase 1\<close>

text \<open>
  C6.  Phase 1 of the version 4 validator, run on any table.  For the object \<open>ob\<close> of a
  slot \<open>i\<close>: when its location is \<open>NOTHING\<close> and its \<open>next\<close> is not, \<open>next\<close> is set
  to \<open>NOTHING\<close>, the repair is counted and the count is logged at the end of the phase;
  each of the fields \<open>parent\<close>, \<open>child\<close>, \<open>sibling\<close>, \<open>location\<close>, \<open>contents\<close>,
  \<open>next\<close> that is not \<open>NOTHING\<close> and refers to no object is set to \<open>NOTHING\<close>, and the
  repair is logged with the slot, the name of the field and the old value (for \<open>next\<close>,
  unless the first rule has already set it to \<open>NOTHING\<close>); and \<open>broken\<close> is not set, so
  no repair makes the function return 0, and phase 2 then runs on the repaired table
  without dereferencing a null pointer.
\<close>

theorem v4_phase1_repairs:
  assumes "i < length objects" and "objects ! i = Some ob"
  shows "\<exists>ob'. vs_objects (v4_validate_phase1 (v4_initial objects)) ! i = Some ob'
    \<and> (o4_location ob = NOTHING \<and> o4_next ob \<noteq> NOTHING \<longrightarrow>
         o4_next ob' = NOTHING
         \<and> 0 < vs_fixed_nexts (v4_validate_phase1 (v4_initial objects))
         \<and> errlog ''VALIDATE: Fixed %d should-be-null next pointer(s) ...''
              [LInt (vs_fixed_nexts (v4_validate_phase1 (v4_initial objects)))]
            \<in> set (vs_log (v4_validate_phase1 (v4_initial objects))))
    \<and> (\<forall>(field, name) \<in> set [(o4_parent, ''parent''), (o4_child, ''child''),
            (o4_sibling, ''sibling''), (o4_location, ''location''),
            (o4_contents, ''contents''), (o4_next, ''next'')].
          field ob \<noteq> NOTHING \<and> dbv4_find_object objects (field ob) = None \<longrightarrow>
            field ob' = NOTHING
            \<and> (errlog ''VALIDATE: #%d.%s = #%d <invalid> ... fixed.''
                  [LInt (int i), LStr name, LInt (field ob)]
                  \<in> set (vs_log (v4_validate_phase1 (v4_initial objects)))
               \<or> name = ''next'' \<and> o4_location ob = NOTHING))
    \<and> \<not> vs_broken (v4_validate_phase1 (v4_initial objects))
    \<and> (\<exists>s2. v4_validate_phase2 (v4_validate_phase1 (v4_initial objects)) = Inr s2)"
proof -
  let ?s = "v4_initial objects"
  let ?s' = "v4_validate_phase1 ?s"
  have objs: "vs_objects ?s = objects" by (simp add: v4_initial_def)
  have i: "i < length (vs_objects ?s)" using assms(1) objs by simp
  have slot: "vs_objects ?s' ! i = Some (v4_repaired objects ob)"
    unfolding v4_validate_phase1_result(1) objs using assms by simp
  have entries: "e \<in> set (vs_log ?s')" if "e \<in> set (phase1_entries objects i ob)" for e
  proof (rule slot_log_logged [OF i])
    show "e \<in> set (slot_log (vs_objects ?s) i)"
      unfolding objs slot_log_def using that assms(2) by simp
  qed
  have fixed: "vs_fixed_nexts ?s' = int (length (filter fixable objects))"
    unfolding v4_validate_phase1_result(3) objs by (simp add: v4_initial_def)
  have 1: "o4_next (v4_repaired objects ob) = NOTHING
         \<and> 0 < vs_fixed_nexts ?s'
         \<and> errlog ''VALIDATE: Fixed %d should-be-null next pointer(s) ...''
              [LInt (vs_fixed_nexts ?s')] \<in> set (vs_log ?s')"
    if "o4_location ob = NOTHING \<and> o4_next ob \<noteq> NOTHING"
  proof -
    from that have "fixable (objects ! i)" by (simp add: assms(2) fixable_def fix_next_def)
    from fixable_count_pos [OF assms(1) this] have pos: "0 < vs_fixed_nexts ?s'"
      unfolding fixed by simp
    then have "errlog ''VALIDATE: Fixed %d should-be-null next pointer(s) ...''
              [LInt (vs_fixed_nexts ?s')] \<in> set (vs_log ?s')"
      by (subst v4_validate_phase1_result(4)) simp
    with pos that show ?thesis by (simp add: v4_repaired_def)
  qed
  have d: "dangling objects v" if "v \<noteq> NOTHING \<and> dbv4_find_object objects v = None" for v
    using that by (simp add: dangling_def)
  note f = repaired_fields [of objects _ i] repaired_next [of objects _ i]
  have 2: "\<forall>(field, name) \<in> set [(o4_parent, ''parent''), (o4_child, ''child''),
            (o4_sibling, ''sibling''), (o4_location, ''location''),
            (o4_contents, ''contents''), (o4_next, ''next'')].
          field ob \<noteq> NOTHING \<and> dbv4_find_object objects (field ob) = None \<longrightarrow>
            field (v4_repaired objects ob) = NOTHING
            \<and> (errlog ''VALIDATE: #%d.%s = #%d <invalid> ... fixed.''
                  [LInt (int i), LStr name, LInt (field ob)] \<in> set (vs_log ?s')
               \<or> name = ''next'' \<and> o4_location ob = NOTHING)"
    unfolding fixed_entry_def [symmetric]
    using f(1) [THEN conjunct2, THEN entries] f(2) [THEN conjunct2, THEN entries]
      f(3) [THEN conjunct2, THEN entries] f(4) [THEN conjunct2, THEN entries]
      f(5) [THEN conjunct2, THEN entries] f(1-5) [THEN conjunct1]
      f(6) [THEN conjunct1] f(6) [THEN conjunct2]  entries d
    by (simp (no_asm_simp)) blast
  have 3: "\<not> vs_broken ?s'"
    unfolding v4_validate_phase1_result(2) by (simp add: v4_initial_def)
  have "well_linked (vs_objects ?s')"
    unfolding v4_validate_phase1_result(1) by (rule phase1_well_linked)
  from v4_validate_phase2_result [OF this]
  have 4: "\<exists>s2. v4_validate_phase2 ?s' = Inr s2" by blast
  from slot 1 2 3 4 show ?thesis by blast
qed


theorem v4_phase1_repairs_witness:
  "\<exists>ob'. vs_objects (v4_validate_phase1 (v4_initial table_dangling)) ! 0 = Some ob'
     \<and> o4_next ob' = NOTHING \<and> o4_parent ob' = NOTHING
     \<and> errlog ''VALIDATE: #%d.%s = #%d <invalid> ... fixed.'' [LInt 0, LStr ''parent'', LInt 7]
          \<in> set (vs_log (v4_validate_phase1 (v4_initial table_dangling)))
     \<and> 0 < vs_fixed_nexts (v4_validate_phase1 (v4_initial table_dangling))
     \<and> errlog ''VALIDATE: Fixed %d should-be-null next pointer(s) ...''
          [LInt (vs_fixed_nexts (v4_validate_phase1 (v4_initial table_dangling)))]
          \<in> set (vs_log (v4_validate_phase1 (v4_initial table_dangling)))
     \<and> \<not> vs_broken (v4_validate_phase1 (v4_initial table_dangling))
     \<and> (\<exists>s2. v4_validate_phase2 (v4_validate_phase1 (v4_initial table_dangling)) = Inr s2)"
proof -
  let ?ob = "blank4\<lparr>o4_parent := 7, o4_next := 0\<rparr>"
  have i: "0 < length table_dangling" and ob: "table_dangling ! 0 = Some ?ob"
    by (simp_all add: table_dangling_def)
  have n: "o4_location ?ob = NOTHING \<and> o4_next ?ob \<noteq> NOTHING"
    by (simp add: blank4_def NOTHING_def)
  have p: "o4_parent ?ob \<noteq> NOTHING \<and> dbv4_find_object table_dangling (o4_parent ?ob) = None"
    by (simp add: blank4_def NOTHING_def dbv4_find_object_def table_dangling_def)
  have v: "o4_parent ?ob = 7" by simp
  from v4_phase1_repairs [OF i ob] n p v show ?thesis
    by (simp (no_asm_use)) blast
qed

text \<open>Phase 1 changes nothing else: a reference that is \<open>NOTHING\<close> or refers to an object
  stays as it is (for \<open>next\<close>, when the location is not \<open>NOTHING\<close>), and so do the name,
  the flags and the owner.\<close>

lemma v4_phase1_keeps_valid:
  assumes "i < length objects" and "objects ! i = Some ob"
  shows "\<exists>ob'. vs_objects (v4_validate_phase1 (v4_initial objects)) ! i = Some ob'
    \<and> (\<not> dangling objects (o4_parent ob) \<longrightarrow> o4_parent ob' = o4_parent ob)
    \<and> (\<not> dangling objects (o4_child ob) \<longrightarrow> o4_child ob' = o4_child ob)
    \<and> (\<not> dangling objects (o4_sibling ob) \<longrightarrow> o4_sibling ob' = o4_sibling ob)
    \<and> (\<not> dangling objects (o4_location ob) \<longrightarrow> o4_location ob' = o4_location ob)
    \<and> (\<not> dangling objects (o4_contents ob) \<longrightarrow> o4_contents ob' = o4_contents ob)
    \<and> (o4_location ob \<noteq> NOTHING \<and> \<not> dangling objects (o4_next ob) \<longrightarrow>
          o4_next ob' = o4_next ob)
    \<and> o4_name ob' = o4_name ob \<and> o4_flags ob' = o4_flags ob \<and> o4_owner ob' = o4_owner ob"
proof -
  have "vs_objects (v4_validate_phase1 (v4_initial objects)) ! i
      = Some (v4_repaired objects ob)"
    unfolding v4_validate_phase1_result(1) using assms by (simp add: v4_initial_def)
  then show ?thesis by (simp add: v4_repaired_def keep_valid_def)
qed

section \<open>Properties of the upgrade of version 4\<close>

lemma objects_at_Some:
  "dbv4_find_object objects iter = Some ob \<Longrightarrow> objects_at objects iter = Inr ob"
  by (auto simp: dbv4_find_object_def objects_at_def split: if_splits)

lemma v4_walk_chain:
  assumes "v4_chain_list objects field iter xs"
  shows "v4_walk objects field iter (VList acc) = Some (Inr (VList (acc @ map VObj xs)))"
  using assms
proof (induction arbitrary: acc rule: v4_chain_list.induct)
  case chain_end
  show ?case by (subst v4_walk.simps) simp
next
  case (chain_step iter ob xs)
  from chain_step.IH [of "acc @ [VObj iter]"] chain_step.hyps(1)
    objects_at_Some [OF chain_step.hyps(2)]
  show ?case
    by (subst v4_walk.simps) (simp add: new_obj_def var_dup_def)
qed

lemma v4_upgrade_slot_None:
  "dbv4_find_object objects (int oid) = None \<Longrightarrow>
   v4_upgrade_slot objects oid st = Some (Inr (st @ [None]))"
  by (simp add: v4_upgrade_slot_def dbpriv_new_recycled_object_def)

lemma v4_upgrade_slot_Some:
  assumes "dbv4_find_object objects (int oid) = Some ob"
    and "v4_chain_list objects o4_sibling (o4_child ob) cs"
    and "v4_chain_list objects o4_next (o4_contents ob) ns"
  shows "v4_upgrade_slot objects oid st = Some (Inr (st @ [Some (upgraded (length st) ob cs ns)]))"
  using assms(1) v4_walk_chain [OF assms(2), of "[]"] v4_walk_chain [OF assms(3), of "[]"]
  by (simp add: v4_upgrade_slot_def new_list0_def dbpriv_new_object_def upgraded_def
      new_obj_def var_dup_def)

lemma v4_upgrade_slot_result:
  assumes "chains_exist objects oid"
  shows "\<exists>slot. v4_upgrade_slot objects oid st = Some (Inr (st @ [slot]))
           \<and> slot_upgraded objects oid (length st) slot"
proof (cases "dbv4_find_object objects (int oid)")
  case None
  then show ?thesis by (simp add: v4_upgrade_slot_None slot_upgraded_def)
next
  case (Some ob)
  with assms obtain cs ns where c: "v4_chain_list objects o4_sibling (o4_child ob) cs"
    "v4_chain_list objects o4_next (o4_contents ob) ns"
    by (auto simp: chains_exist_def)
  from v4_upgrade_slot_Some [OF Some c] Some c show ?thesis
    by (auto simp: slot_upgraded_def)
qed

lemma v4_upgrade_loop_result:
  assumes "\<forall>oid \<in> set oids. chains_exist objects oid"
  shows "\<exists>new. v4_upgrade_loop objects oids st = Some (Inr (st @ new))
           \<and> length new = length oids
           \<and> (\<forall>j < length oids. slot_upgraded objects (oids ! j) (length st + j) (new ! j))"
  using assms
proof (induction oids arbitrary: st)
  case Nil
  then show ?case by simp
next
  case (Cons oid oids)
  from Cons.prems have "chains_exist objects oid" by simp
  from v4_upgrade_slot_result [OF this, of st]
  obtain slot where slot: "v4_upgrade_slot objects oid st = Some (Inr (st @ [slot]))"
    "slot_upgraded objects oid (length st) slot"
    by blast
  from Cons.prems have "\<forall>oid \<in> set oids. chains_exist objects oid" by simp
  from Cons.IH [OF this, of "st @ [slot]"]
  obtain new where new: "v4_upgrade_loop objects oids (st @ [slot]) = Some (Inr ((st @ [slot]) @ new))"
    "length new = length oids"
    "\<forall>j < length oids. slot_upgraded objects (oids ! j) (length (st @ [slot]) + j) (new ! j)"
    by blast
  have "\<forall>j < length (oid # oids).
          slot_upgraded objects ((oid # oids) ! j) (length st + j) ((slot # new) ! j)"
  proof (intro allI impI)
    fix j assume j: "j < length (oid # oids)"
    show "slot_upgraded objects ((oid # oids) ! j) (length st + j) ((slot # new) ! j)"
    proof (cases j)
      case 0
      with slot(2) show ?thesis by simp
    next
      case (Suc j')
      with j new(3) show ?thesis by simp
    qed
  qed
  moreover have "v4_upgrade_loop objects (oid # oids) st = Some (Inr (st @ (slot # new)))"
    using slot(1) new(1) by simp
  moreover have "length (slot # new) = length (oid # oids)" using new(2) by simp
  ultimately show ?case by blast
qed

lemma v4_loaded_chains:
  assumes "v4_loaded blocks objects" and "oid < length objects"
  shows "chains_exist objects oid"
proof -
  let ?s1 = "v4_validate_phase1 (v4_initial (v4_read_objects blocks))"
  from assms(1) obtain s2 where s2: "v4_validate_phase2 ?s1 = Inr s2" "\<not> vs_broken s2"
    "objects = vs_objects s2"
    unfolding v4_loaded_def by blast
  have wl1: "well_linked (vs_objects ?s1)"
    unfolding v4_validate_phase1_result(1) by (rule phase1_well_linked)
  from v4_validate_phase2_result [OF wl1] s2
  have objs: "objects = vs_objects ?s1"
    and nc: "\<not> (\<exists>oid < length objects. slot_cycle objects oid)"
    by auto
  from wl1 objs have wl: "well_linked objects" by simp
  show ?thesis
  proof (cases "dbv4_find_object objects (int oid)")
    case None
    then show ?thesis by (simp add: chains_exist_def)
  next
    case (Some ob)
    from nc assms(2) Some have noc: "\<not> object_cycle objects ob"
      by (auto simp: slot_cycle_def)
    from wl Some have nd: "\<not> dangling objects (o4_child ob)" "\<not> dangling objects (o4_contents ob)"
      and lv: "links_valid objects o4_sibling" "links_valid objects o4_next"
      unfolding well_linked_def links_valid_def by blast+
    from noc v4_chain_cycle_iff [OF lv(1) nd(1)] v4_chain_cycle_iff [OF lv(2) nd(2)]
    have "(\<exists>cs. v4_chain_list objects o4_sibling (o4_child ob) cs)
          \<and> (\<exists>ns. v4_chain_list objects o4_next (o4_contents ob) ns)"
      by (auto simp: object_cycle_def)
    with Some show ?thesis by (simp add: chains_exist_def)
  qed
qed

text \<open>The upgrade of a loaded table ends, without a fault, and fills the store slot by
  slot.\<close>

lemma v4_upgrade_loaded:
  assumes "v4_loaded blocks objects"
  shows "\<exists>st. v4_upgrade_objects objects [] = Some (Inr st) \<and> length st = length objects
           \<and> (\<forall>i < length objects. slot_upgraded objects i i (st ! i))"
proof -
  from v4_loaded_chains [OF assms]
  have "\<forall>oid \<in> set [0 ..< length objects]. chains_exist objects oid" by simp
  from v4_upgrade_loop_result [OF this, of "[]"]
  show ?thesis unfolding v4_upgrade_objects_def by auto
qed


lemma v4_read_objects_tree: "v4_read_objects blocks_tree = table_tree"
  by (simp add: v4_read_objects_def blocks_tree_def table_tree_def dbv4_new_object_def
      dbv4_new_recycled_object_def blank4_def)

lemma find_tree:
  "dbv4_find_object table_tree 0 = Some (blank4\<lparr>o4_id := 0, o4_child := 1\<rparr>)"
  "dbv4_find_object table_tree 1 = Some (blank4\<lparr>o4_id := 1, o4_parent := 0, o4_sibling := 3\<rparr>)"
  "dbv4_find_object table_tree 2 = None"
  "dbv4_find_object table_tree 3 = Some (blank4\<lparr>o4_id := 3, o4_parent := 0\<rparr>)"
  "dbv4_find_object table_tree (-1) = None"
  by (simp_all add: dbv4_find_object_def table_tree_def)

lemma repaired_tree: "map (map_option (v4_repaired table_tree)) table_tree = table_tree"
  by (simp add: table_tree_def v4_repaired_def keep_valid_def dangling_def blank4_def
      dbv4_find_object_def NOTHING_def)

lemma v4_chain_list_Nil_iff: "v4_chain_list objects field start [] \<longleftrightarrow> start = NOTHING"
  by (auto intro: chain_end elim: v4_chain_list.cases)

lemma v4_chain_list_Cons_iff:
  "v4_chain_list objects field start (x # xs) \<longleftrightarrow>
     start = x \<and> x \<noteq> NOTHING
     \<and> (\<exists>ob. dbv4_find_object objects x = Some ob \<and> v4_chain_list objects field (field ob) xs)"
  by (auto intro: chain_step elim: v4_chain_list.cases)

lemma not_object_cycle:
  assumes "v4_chain_list objects o4_parent (o4_parent ob) ps"
    and "v4_chain_list objects o4_sibling (o4_child ob) cs"
    and "v4_chain_list objects o4_location (o4_location ob) ls"
    and "v4_chain_list objects o4_next (o4_contents ob) ns"
  shows "\<not> object_cycle objects ob"
  unfolding object_cycle_def
  using v4_chain_list_False [OF assms(1), of 0 "length objects"] v4_chain_list_length [OF assms(1)]
    v4_chain_list_False [OF assms(2), of 0 "length objects"] v4_chain_list_length [OF assms(2)]
    v4_chain_list_False [OF assms(3), of 0 "length objects"] v4_chain_list_length [OF assms(3)]
    v4_chain_list_False [OF assms(4), of 0 "length objects"] v4_chain_list_length [OF assms(4)]
  by simp

lemmas v4_chain_list_eval = v4_chain_list_Nil_iff v4_chain_list_Cons_iff NOTHING_def blank4_def

lemma no_cycle_tree: "\<not> (\<exists>oid < length table_tree. slot_cycle table_tree oid)"
proof -
  have l: "length table_tree = 4" by (simp add: table_tree_def)
  have 0: "\<not> object_cycle table_tree (blank4\<lparr>o4_id := 0, o4_child := 1\<rparr>)"
    by (rule not_object_cycle [of _ _ "[]" "[1, 3]" "[]" "[]"])
       (simp_all add: v4_chain_list_eval find_tree)
  have 1: "\<not> object_cycle table_tree (blank4\<lparr>o4_id := 1, o4_parent := 0, o4_sibling := 3\<rparr>)"
    by (rule not_object_cycle [of _ _ "[0]" "[]" "[]" "[]"])
       (simp_all add: v4_chain_list_eval find_tree)
  have 3: "\<not> object_cycle table_tree (blank4\<lparr>o4_id := 3, o4_parent := 0\<rparr>)"
    by (rule not_object_cycle [of _ _ "[0]" "[]" "[]" "[]"])
       (simp_all add: v4_chain_list_eval find_tree)
  have f0: "dbv4_find_object table_tree (int 0) = Some (blank4\<lparr>o4_id := 0, o4_child := 1\<rparr>)"
    and f1: "dbv4_find_object table_tree (int 1)
               = Some (blank4\<lparr>o4_id := 1, o4_parent := 0, o4_sibling := 3\<rparr>)"
    and f2: "dbv4_find_object table_tree (int 2) = None"
    and f3: "dbv4_find_object table_tree (int 3) = Some (blank4\<lparr>o4_id := 3, o4_parent := 0\<rparr>)"
    using find_tree by simp_all
  have s0: "\<not> slot_cycle table_tree 0" unfolding slot_cycle_def f0 option.case by (rule 0)
  have s1: "\<not> slot_cycle table_tree 1" unfolding slot_cycle_def f1 option.case by (rule 1)
  have s2: "\<not> slot_cycle table_tree 2" unfolding slot_cycle_def f2 option.case by simp
  have s3: "\<not> slot_cycle table_tree 3" unfolding slot_cycle_def f3 option.case by (rule 3)
  show ?thesis
  proof
    assume "\<exists>oid < length table_tree. slot_cycle table_tree oid"
    then obtain oid where oid: "oid < 4" "slot_cycle table_tree oid" unfolding l by blast
    from oid(1) have "oid = 0 \<or> oid = 1 \<or> oid = 2 \<or> oid = 3" by arith
    with oid(2) s0 s1 s2 s3 show False by blast
  qed
qed

lemma v4_loaded_tree: "v4_loaded blocks_tree table_tree"
proof -
  let ?s1 = "v4_validate_phase1 (v4_initial (v4_read_objects blocks_tree))"
  have o1: "vs_objects ?s1 = table_tree"
    unfolding v4_validate_phase1_result(1) v4_read_objects_tree
    by (simp add: v4_initial_def repaired_tree)
  have b1: "\<not> vs_broken ?s1"
    unfolding v4_validate_phase1_result(2) by (simp add: v4_initial_def)
  have "well_linked (vs_objects ?s1)"
    unfolding v4_validate_phase1_result(1) by (rule phase1_well_linked)
  from v4_validate_phase2_result [OF this] o1 b1 no_cycle_tree
  show ?thesis unfolding v4_loaded_def by auto
qed


lemma v4_read_objects_snoc:
  "v4_read_objects (blocks @ [b])
     = (case b of None \<Rightarrow> dbv4_new_recycled_object (v4_read_objects blocks)
               | Some body \<Rightarrow> dbv4_new_object (v4_read_objects blocks) body)"
  by (cases b) (simp_all add: v4_read_objects_def)

lemma v4_read_objects_ids:
  "length (v4_read_objects blocks) = length blocks
   \<and> (\<forall>i < length blocks. \<forall>ob. v4_read_objects blocks ! i = Some ob \<longrightarrow> o4_id ob = int i)"
proof (induction blocks rule: rev_induct)
  case Nil
  show ?case by (simp add: v4_read_objects_def)
next
  case (snoc b blocks)
  then show ?case
    by (cases b)
       (auto simp: v4_read_objects_snoc dbv4_new_object_def dbv4_new_recycled_object_def
          nth_append less_Suc_eq)
qed

lemma v4_loaded_ids:
  assumes "v4_loaded blocks objects" and "i < length objects" and "objects ! i = Some ob"
  shows "o4_id ob = int i"
proof -
  let ?objs0 = "v4_read_objects blocks"
  let ?s1 = "v4_validate_phase1 (v4_initial ?objs0)"
  from assms(1) obtain s2 where s2: "v4_validate_phase2 ?s1 = Inr s2" "objects = vs_objects s2"
    unfolding v4_loaded_def by blast
  have o1: "vs_objects ?s1 = map (map_option (v4_repaired ?objs0)) ?objs0"
    unfolding v4_validate_phase1_result(1) by (simp add: v4_initial_def)
  have "well_linked (vs_objects ?s1)"
    unfolding v4_validate_phase1_result(1) by (rule phase1_well_linked)
  from v4_validate_phase2_result [OF this] s2 o1
  have objs: "objects = map (map_option (v4_repaired ?objs0)) ?objs0" by auto
  with assms(2,3) obtain ob0 where ob0: "?objs0 ! i = Some ob0" "ob = v4_repaired ?objs0 ob0"
    by auto
  from objs assms(2) v4_read_objects_ids [of blocks] ob0(1) have "o4_id ob0 = int i" by simp
  with ob0(2) show ?thesis by (simp add: repaired_sel)
qed

text \<open>
  C4.  For a loaded table of version 4 (read, repaired by phase 1, found free of cycles
  by phase 2) \<open>v4_upgrade_objects\<close> ends without a fault and fills a live store of the
  same length.  Slot by slot: a recycled slot becomes a recycled slot; an object becomes
  a live object with the same id (the index of the slot), name, flags and owner, whose
  children are the list of the chain from \<open>child\<close> along \<open>sibling\<close>, whose contents are
  the list of the chain from \<open>contents\<close> along \<open>next\<close>, and whose location is the object
  value of the old location.
\<close>

theorem v4_upgrade_preserves:
  assumes "v4_loaded blocks objects"
  shows "\<exists>st. v4_upgrade_objects objects [] = Some (Inr st) \<and> length st = length objects
    \<and> (\<forall>i < length objects.
          (objects ! i = None \<longrightarrow> st ! i = None)
          \<and> (\<forall>ob. objects ! i = Some ob \<longrightarrow>
               (\<exists>ob' cs ns. st ! i = Some ob'
                  \<and> obj_id ob' = int i \<and> obj_id ob' = o4_id ob
                  \<and> obj_name ob' = o4_name ob \<and> obj_flags ob' = o4_flags ob
                  \<and> obj_owner ob' = o4_owner ob
                  \<and> v4_chain_list objects o4_sibling (o4_child ob) cs
                  \<and> obj_children ob' = VList (map VObj cs)
                  \<and> v4_chain_list objects o4_next (o4_contents ob) ns
                  \<and> obj_contents ob' = VList (map VObj ns)
                  \<and> obj_location ob' = VObj (o4_location ob))))"
proof -
  from v4_upgrade_loaded [OF assms] obtain st where
    st: "v4_upgrade_objects objects [] = Some (Inr st)" "length st = length objects"
    "\<forall>i < length objects. slot_upgraded objects i i (st ! i)"
    by blast
  have "(objects ! i = None \<longrightarrow> st ! i = None)
          \<and> (\<forall>ob. objects ! i = Some ob \<longrightarrow>
               (\<exists>ob' cs ns. st ! i = Some ob'
                  \<and> obj_id ob' = int i \<and> obj_id ob' = o4_id ob
                  \<and> obj_name ob' = o4_name ob \<and> obj_flags ob' = o4_flags ob
                  \<and> obj_owner ob' = o4_owner ob
                  \<and> v4_chain_list objects o4_sibling (o4_child ob) cs
                  \<and> obj_children ob' = VList (map VObj cs)
                  \<and> v4_chain_list objects o4_next (o4_contents ob) ns
                  \<and> obj_contents ob' = VList (map VObj ns)
                  \<and> obj_location ob' = VObj (o4_location ob)))"
    if i: "i < length objects" for i
  proof (cases "objects ! i")
    case None
    with st(3) [rule_format, OF i] i show ?thesis
      by (simp add: slot_upgraded_def dbv4_find_object_nat)
  next
    case (Some ob)
    with st(3) [rule_format, OF i] i
    obtain cs ns where c: "v4_chain_list objects o4_sibling (o4_child ob) cs"
      "v4_chain_list objects o4_next (o4_contents ob) ns"
      "st ! i = Some (upgraded i ob cs ns)"
      by (auto simp: slot_upgraded_def dbv4_find_object_nat)
    from v4_loaded_ids [OF assms i Some] have "o4_id ob = int i" .
    with c Some show ?thesis by (auto simp: upgraded_def)
  qed
  with st(1,2) show ?thesis by blast
qed

text \<open>
  C3, as the code has it.  For a loaded table of version 4, the parents of each live
  object made by the upgrade are the object value of the old parent,
  \<open>new_obj(o->parent)\<close>: a single value and no list.  For an object without a parent it
  is the object value of \<open>NOTHING\<close>.
\<close>

theorem v4_upgrade_parents:
  assumes "v4_loaded blocks objects"
  shows "\<exists>st. v4_upgrade_objects objects [] = Some (Inr st)
    \<and> (\<forall>i < length objects. \<forall>ob. objects ! i = Some ob \<longrightarrow>
          (\<exists>ob'. st ! i = Some ob' \<and> obj_parents ob' = VObj (o4_parent ob)
             \<and> (o4_parent ob = NOTHING \<longrightarrow> obj_parents ob' = VObj NOTHING)
             \<and> (\<forall>xs. obj_parents ob' \<noteq> VList xs)))"
proof -
  from v4_upgrade_loaded [OF assms] obtain st where
    st: "v4_upgrade_objects objects [] = Some (Inr st)"
    "\<forall>i < length objects. slot_upgraded objects i i (st ! i)"
    by blast
  have "\<exists>ob'. st ! i = Some ob' \<and> obj_parents ob' = VObj (o4_parent ob)
             \<and> (o4_parent ob = NOTHING \<longrightarrow> obj_parents ob' = VObj NOTHING)
             \<and> (\<forall>xs. obj_parents ob' \<noteq> VList xs)"
    if "i < length objects" and "objects ! i = Some ob" for i ob
    using st(2) [rule_format, OF that(1)] that
    by (auto simp: slot_upgraded_def dbv4_find_object_nat upgraded_def)
  with st(1) show ?thesis by blast
qed


lemma upgrade_tree: "v4_upgrade_objects table_tree [] = Some (Inr store_tree)"
proof -
  have f: "dbv4_find_object table_tree (int 0) = Some (blank4\<lparr>o4_id := 0, o4_child := 1\<rparr>)"
    "dbv4_find_object table_tree (int 1)
       = Some (blank4\<lparr>o4_id := 1, o4_parent := 0, o4_sibling := 3\<rparr>)"
    "dbv4_find_object table_tree (int 2) = None"
    "dbv4_find_object table_tree (int 3) = Some (blank4\<lparr>o4_id := 3, o4_parent := 0\<rparr>)"
    using find_tree by simp_all
  have u: "[0 ..< length table_tree] = [0, 1, 2, 3]"
    by (simp add: table_tree_def upt_rec)
  have s0: "v4_upgrade_slot table_tree 0 st
      = Some (Inr (st @ [Some (upgraded (length st) (blank4\<lparr>o4_id := 0, o4_child := 1\<rparr>) [1, 3] [])]))"
    for st
    by (rule v4_upgrade_slot_Some [OF f(1)]) (simp_all add: v4_chain_list_eval find_tree)
  have s1: "v4_upgrade_slot table_tree 1 st
      = Some (Inr (st @ [Some (upgraded (length st)
          (blank4\<lparr>o4_id := 1, o4_parent := 0, o4_sibling := 3\<rparr>) [] [])]))"
    for st
    by (rule v4_upgrade_slot_Some [OF f(2)]) (simp_all add: v4_chain_list_eval find_tree)
  have s2: "v4_upgrade_slot table_tree 2 st = Some (Inr (st @ [None]))" for st
    by (rule v4_upgrade_slot_None [OF f(3)])
  have s3: "v4_upgrade_slot table_tree 3 st
      = Some (Inr (st @ [Some (upgraded (length st) (blank4\<lparr>o4_id := 3, o4_parent := 0\<rparr>) [] [])]))"
    for st
    by (rule v4_upgrade_slot_Some [OF f(4)]) (simp_all add: v4_chain_list_eval find_tree)
  show ?thesis
    unfolding v4_upgrade_objects_def u
    by (simp add: s0 s1 [unfolded One_nat_def] s2 s3 upgraded_def store_tree_def blank4_def
        NOTHING_def)
qed

theorem v4_upgrade_preserves_witness:
  "v4_loaded blocks_tree table_tree
   \<and> (\<exists>st. v4_upgrade_objects table_tree [] = Some (Inr st) \<and> length st = 4
          \<and> st ! 2 = None
          \<and> (\<exists>ob'. st ! 0 = Some ob' \<and> obj_id ob' = 0 \<and> obj_name ob' = ''object''
                \<and> obj_flags ob' = 0 \<and> obj_owner ob' = NOTHING
                \<and> obj_children ob' = VList [VObj 1, VObj 3] \<and> obj_contents ob' = VList []
                \<and> obj_location ob' = VObj NOTHING))"
proof -
  from v4_upgrade_preserves [OF v4_loaded_tree] obtain st where
    st: "v4_upgrade_objects table_tree [] = Some (Inr st)" "length st = length table_tree"
    and slots: "\<forall>i < length table_tree.
          (table_tree ! i = None \<longrightarrow> st ! i = None)
          \<and> (\<forall>ob. table_tree ! i = Some ob \<longrightarrow>
               (\<exists>ob' cs ns. st ! i = Some ob'
                  \<and> obj_id ob' = int i \<and> obj_id ob' = o4_id ob
                  \<and> obj_name ob' = o4_name ob \<and> obj_flags ob' = o4_flags ob
                  \<and> obj_owner ob' = o4_owner ob
                  \<and> v4_chain_list table_tree o4_sibling (o4_child ob) cs
                  \<and> obj_children ob' = VList (map VObj cs)
                  \<and> v4_chain_list table_tree o4_next (o4_contents ob) ns
                  \<and> obj_contents ob' = VList (map VObj ns)
                  \<and> obj_location ob' = VObj (o4_location ob)))"
    by blast
  have l: "length table_tree = 4" by (simp add: table_tree_def)
  have t2: "table_tree ! 2 = None"
    and t0: "table_tree ! 0 = Some (blank4\<lparr>o4_id := 0, o4_child := 1\<rparr>)"
    by (simp_all add: table_tree_def)
  from slots [rule_format, of 2] l t2 have 2: "st ! 2 = None" by simp
  from slots [rule_format, of 0] l t0 obtain ob' cs ns where
    ob': "st ! 0 = Some ob'" "obj_id ob' = 0" "obj_name ob' = ''object''" "obj_flags ob' = 0"
      "obj_owner ob' = NOTHING"
      "v4_chain_list table_tree o4_sibling 1 cs" "obj_children ob' = VList (map VObj cs)"
      "v4_chain_list table_tree o4_next NOTHING ns" "obj_contents ob' = VList (map VObj ns)"
      "obj_location ob' = VObj NOTHING"
    by (auto simp: blank4_def)
  have "v4_chain_list table_tree o4_sibling 1 [1, 3]"
    by (simp add: v4_chain_list_eval find_tree)
  from v4_chain_list_functional [OF ob'(6) this] have cs: "cs = [1, 3]" .
  from v4_chain_list_functional [OF ob'(8) chain_end] have ns: "ns = []" .
  from st l 2 ob' cs ns v4_loaded_tree show ?thesis by auto
qed

theorem v4_upgrade_parents_witness:
  "v4_loaded blocks_tree table_tree
   \<and> (\<exists>st ob0 ob1. v4_upgrade_objects table_tree [] = Some (Inr st)
          \<and> st ! 0 = Some ob0 \<and> obj_parents ob0 = VObj NOTHING
          \<and> st ! 1 = Some ob1 \<and> obj_parents ob1 = VObj 0)"
proof -
  from v4_upgrade_parents [OF v4_loaded_tree] obtain st where
    st: "v4_upgrade_objects table_tree [] = Some (Inr st)"
    and slots: "\<forall>i < length table_tree. \<forall>ob. table_tree ! i = Some ob \<longrightarrow>
          (\<exists>ob'. st ! i = Some ob' \<and> obj_parents ob' = VObj (o4_parent ob)
             \<and> (o4_parent ob = NOTHING \<longrightarrow> obj_parents ob' = VObj NOTHING)
             \<and> (\<forall>xs. obj_parents ob' \<noteq> VList xs))"
    by blast
  have l: "length table_tree = 4" by (simp add: table_tree_def)
  have t0: "table_tree ! 0 = Some (blank4\<lparr>o4_id := 0, o4_child := 1\<rparr>)"
    and t1: "table_tree ! 1 = Some (blank4\<lparr>o4_id := 1, o4_parent := 0, o4_sibling := 3\<rparr>)"
    by (simp_all add: table_tree_def)
  have p0: "o4_parent (blank4\<lparr>o4_id := 0, o4_child := 1\<rparr>) = NOTHING"
    by (simp add: blank4_def)
  from slots [rule_format, of 0, OF _ t0] l p0
  obtain ob0 where ob0: "st ! 0 = Some ob0" "obj_parents ob0 = VObj NOTHING" by auto
  from slots [rule_format, of 1, OF _ t1] l
  obtain ob1 where ob1: "st ! 1 = Some ob1" "obj_parents ob1 = VObj 0" by auto
  from st ob0 ob1 v4_loaded_tree show ?thesis by blast
qed

text \<open>
  C3, as stated, fails: the claim has \<open>parents\<close> be the one-element list of the
  parent.  For the root #0 of the tree, whose parent is \<open>NOTHING\<close>, the upgrade stores
  the object value of \<open>NOTHING\<close>, which is not the list of that value.
\<close>

theorem v4_upgrade_parents_not_a_list:
  "v4_loaded blocks_tree table_tree
   \<and> table_tree ! 0 = Some (blank4\<lparr>o4_id := 0, o4_child := 1\<rparr>)
   \<and> o4_parent (blank4\<lparr>o4_id := 0, o4_child := 1\<rparr>) = NOTHING
   \<and> v4_upgrade_objects table_tree [] = Some (Inr store_tree)
   \<and> map_option obj_parents (store_tree ! 0) = Some (VObj NOTHING)
   \<and> map_option obj_parents (store_tree ! 0) \<noteq> Some (VList [VObj NOTHING])"
  using v4_loaded_tree upgrade_tree
  by (simp add: table_tree_def store_tree_def blank4_def NOTHING_def)


section \<open>Cycle detection\<close>

lemma ismember_from_pos: "0 < i \<Longrightarrow> 0 < ismember_from i v xs \<longleftrightarrow> v \<in> set xs"
proof (induction xs arbitrary: i)
  case Nil
  show ?case by simp
next
  case (Cons x xs)
  from Cons.IH [of "i + 1"] have "0 < ismember_from (i + 1) v xs \<longleftrightarrow> v \<in> set xs" by simp
  with Cons.prems show ?case by auto
qed

lemma ismember_iff: "ismember v (VList xs) \<noteq> 0 \<longleftrightarrow> v \<in> set xs"
  using ismember_from_pos [of 1 v xs] by simp

lemma ng_CHECK2_broken:
  assumes "computes_closure func st r" and "dbpriv_find_object st (int oid) = Some ob"
  shows "fst (ng_CHECK2 func st oid name bl) = (fst bl \<or> (int oid, int oid) \<in> r\<^sup>+)"
proof -
  from assms obtain xs where xs: "func st (int oid) False = VList xs"
    "set xs = VObj ` {p. (int oid, p) \<in> r\<^sup>+}"
    unfolding computes_closure_def by blast
  have "ismember (VObj (int oid)) (VList xs) \<noteq> 0 \<longleftrightarrow> (int oid, int oid) \<in> r\<^sup>+"
    unfolding ismember_iff xs(2) by auto
  then show ?thesis
    by (auto simp: ng_CHECK2_def Let_def xs(1))
qed

lemma ng_phase2_body_broken:
  assumes "computes_closure db_ancestors st (ng_parent_rel st)"
    and "computes_closure db_all_locations st (ng_location_rel st)"
  shows "fst (ng_phase2_body db_ancestors db_all_locations st oid bl)
           = (fst bl \<or> ng_slot_cycle st oid)"
proof (cases "dbpriv_find_object st (int oid)")
  case None
  then show ?thesis by (simp add: ng_phase2_body_def ng_slot_cycle_def Let_def)
next
  case (Some ob)
  show ?thesis
    unfolding ng_phase2_body_def Let_def Some option.case
      ng_CHECK2_broken [OF assms(2) Some] ng_CHECK2_broken [OF assms(1) Some]
    by (auto simp: ng_slot_cycle_def Some)
qed

lemma ng_fold_broken:
  assumes "computes_closure db_ancestors st (ng_parent_rel st)"
    and "computes_closure db_all_locations st (ng_location_rel st)"
  shows "fst (fold (ng_phase2_body db_ancestors db_all_locations st) oids bl)
           = (fst bl \<or> (\<exists>oid \<in> set oids. ng_slot_cycle st oid))"
proof (induction oids arbitrary: bl)
  case Nil
  show ?case by simp
next
  case (Cons oid oids)
  show ?case
    by (auto simp: Cons.IH ng_phase2_body_broken [OF assms])
qed

lemma dbpriv_find_object_Some_nat:
  assumes "dbpriv_find_object st x = Some ob"
  shows "\<exists>i < length st. x = int i \<and> st ! i = Some ob"
proof -
  from assms have "0 \<le> x" "nat x < length st" "st ! nat x = Some ob"
    by (auto simp: dbpriv_find_object_def split: if_splits)
  then show ?thesis by (intro exI [of _ "nat x"]) simp
qed

lemma ng_cycle_live:
  assumes "(x, x) \<in> r\<^sup>+" and "\<And>a b. (a, b) \<in> r \<Longrightarrow> dbpriv_find_object st a \<noteq> None"
  shows "\<exists>i < length st. x = int i \<and> dbpriv_find_object st (int i) \<noteq> None"
proof -
  from assms(1) obtain y where "(x, y) \<in> r" by (meson tranclD)
  from assms(2) [OF this] obtain ob where "dbpriv_find_object st x = Some ob" by blast
  from dbpriv_find_object_Some_nat [OF this] this show ?thesis by auto
qed

lemma ng_validate_phase2_broken:
  assumes "computes_closure db_ancestors st (ng_parent_rel st)"
    and "computes_closure db_all_locations st (ng_location_rel st)"
  shows "fst (ng_validate_phase2 db_ancestors db_all_locations st lg)
           \<longleftrightarrow> (\<exists>x. (x, x) \<in> (ng_parent_rel st)\<^sup>+) \<or> (\<exists>x. (x, x) \<in> (ng_location_rel st)\<^sup>+)"
proof -
  have b: "fst (ng_validate_phase2 db_ancestors db_all_locations st lg)
      \<longleftrightarrow> (\<exists>oid < length st. ng_slot_cycle st oid)"
    unfolding ng_validate_phase2_def ng_fold_broken [OF assms] by auto
  have p: "\<exists>i < length st. ng_slot_cycle st i" if "(x, x) \<in> (ng_parent_rel st)\<^sup>+" for x
  proof -
    from ng_cycle_live [OF that, of st] obtain i where
      "i < length st" "x = int i" "dbpriv_find_object st (int i) \<noteq> None"
      by (auto simp: ng_parent_rel_def)
    with that show ?thesis by (auto simp: ng_slot_cycle_def)
  qed
  have l: "\<exists>i < length st. ng_slot_cycle st i" if "(x, x) \<in> (ng_location_rel st)\<^sup>+" for x
  proof -
    from ng_cycle_live [OF that, of st] obtain i where
      "i < length st" "x = int i" "dbpriv_find_object st (int i) \<noteq> None"
      by (auto simp: ng_location_rel_def)
    with that show ?thesis by (auto simp: ng_slot_cycle_def)
  qed
  show ?thesis
    unfolding b
  proof
    assume "\<exists>oid < length st. ng_slot_cycle st oid"
    then obtain oid where "ng_slot_cycle st oid" by blast
    then show "(\<exists>x. (x, x) \<in> (ng_parent_rel st)\<^sup>+) \<or> (\<exists>x. (x, x) \<in> (ng_location_rel st)\<^sup>+)"
      unfolding ng_slot_cycle_def by blast
  next
    assume "(\<exists>x. (x, x) \<in> (ng_parent_rel st)\<^sup>+) \<or> (\<exists>x. (x, x) \<in> (ng_location_rel st)\<^sup>+)"
    then show "\<exists>oid < length st. ng_slot_cycle st oid"
      using p l by blast
  qed
qed

text \<open>Version 4: what phase 2 finds, in terms of the relations.\<close>

lemma slot_cycle_reaches:
  assumes wl: "well_linked objects" and ob: "dbv4_find_object objects (int oid) = Some ob"
  shows "slot_cycle objects oid \<longleftrightarrow>
           reaches_cycle objects o4_parent (o4_parent ob)
           \<or> reaches_cycle objects o4_sibling (o4_child ob)
           \<or> reaches_cycle objects o4_location (o4_location ob)
           \<or> reaches_cycle objects o4_next (o4_contents ob)"
proof -
  from wl ob have nd: "\<not> dangling objects (o4_parent ob)" "\<not> dangling objects (o4_child ob)"
    "\<not> dangling objects (o4_location ob)" "\<not> dangling objects (o4_contents ob)"
    and lv: "links_valid objects o4_parent" "links_valid objects o4_sibling"
    "links_valid objects o4_location" "links_valid objects o4_next"
    unfolding well_linked_def links_valid_def by blast+
  show ?thesis
    unfolding slot_cycle_def ob option.case object_cycle_def
      v4_chain_cycle_iff_reaches [OF lv(1) nd(1)] v4_chain_cycle_iff_reaches [OF lv(2) nd(2)]
      v4_chain_cycle_iff_reaches [OF lv(3) nd(3)] v4_chain_cycle_iff_reaches [OF lv(4) nd(4)]
    ..
qed

lemma dbv4_find_object_Some_nat:
  assumes "dbv4_find_object objects x = Some ob"
  shows "\<exists>i < length objects. x = int i \<and> objects ! i = Some ob"
proof -
  from assms have "0 \<le> x" "nat x < length objects" "objects ! nat x = Some ob"
    by (auto simp: dbv4_find_object_def split: if_splits)
  then show ?thesis by (intro exI [of _ "nat x"]) simp
qed

text \<open>A cycle of the relation of a field is reached from the field of an object on it.\<close>

lemma cycle_reached_from_field:
  assumes "(x, x) \<in> (v4_rel objects field)\<^sup>+"
  shows "\<exists>i ob. i < length objects \<and> objects ! i = Some ob
           \<and> reaches_cycle objects field (field ob)"
proof -
  from assms obtain y where y: "(x, y) \<in> v4_rel objects field" "(y, x) \<in> (v4_rel objects field)\<^sup>*"
    by (meson tranclD)
  from y(1) obtain ob where ob: "dbv4_find_object objects x = Some ob" "field ob = y"
    "y \<noteq> NOTHING"
    by (auto simp: v4_rel_def)
  from dbv4_find_object_Some_nat [OF ob(1)] obtain i where
    i: "i < length objects" "objects ! i = Some ob" by blast
  from y(2) assms ob(2,3) have "reaches_cycle objects field (field ob)"
    by (auto simp: reaches_cycle_def)
  with i show ?thesis by blast
qed

lemma reaches_cycle_has_cycle:
  "reaches_cycle objects field start \<Longrightarrow> \<exists>x. (x, x) \<in> (v4_rel objects field)\<^sup>+"
  by (auto simp: reaches_cycle_def)

lemma v4_slot_cycle_iff:
  assumes wl: "well_linked objects"
  shows "(\<exists>oid < length objects. slot_cycle objects oid) \<longleftrightarrow> v4_has_cycle objects"
proof
  assume "\<exists>oid < length objects. slot_cycle objects oid"
  then obtain oid where oid: "oid < length objects" "slot_cycle objects oid" by blast
  then obtain ob where ob: "dbv4_find_object objects (int oid) = Some ob"
    by (auto simp: slot_cycle_def split: option.splits)
  with oid(1) have "objects ! oid = Some ob" by (simp add: dbv4_find_object_nat)
  with nth_mem [OF oid(1)] have mem: "Some ob \<in> set objects" by simp
  from oid(2) slot_cycle_reaches [OF wl ob] consider
    (p) "reaches_cycle objects o4_parent (o4_parent ob)"
    | (s) "reaches_cycle objects o4_sibling (o4_child ob)"
    | (l) "reaches_cycle objects o4_location (o4_location ob)"
    | (n) "reaches_cycle objects o4_next (o4_contents ob)"
    by blast
  then show "v4_has_cycle objects"
  proof cases
    case p
    from reaches_cycle_has_cycle [OF p] show ?thesis
      unfolding v4_has_cycle_def by (rule disjI1)
  next
    case s
    with mem have "\<exists>ob. Some ob \<in> set objects \<and> reaches_cycle objects o4_sibling (o4_child ob)"
      by blast
    then show ?thesis unfolding v4_has_cycle_def by (intro disjI2 disjI1)
  next
    case l
    from reaches_cycle_has_cycle [OF l] show ?thesis
      unfolding v4_has_cycle_def by (intro disjI2 disjI1)
  next
    case n
    with mem have "\<exists>ob. Some ob \<in> set objects \<and> reaches_cycle objects o4_next (o4_contents ob)"
      by blast
    then show ?thesis unfolding v4_has_cycle_def by (intro disjI2)
  qed
next
  assume h: "v4_has_cycle objects"
  have live: "\<exists>oid < length objects. slot_cycle objects oid"
    if "i < length objects" "objects ! i = Some ob"
      "reaches_cycle objects o4_parent (o4_parent ob)
           \<or> reaches_cycle objects o4_sibling (o4_child ob)
           \<or> reaches_cycle objects o4_location (o4_location ob)
           \<or> reaches_cycle objects o4_next (o4_contents ob)" for i ob
  proof -
    from that(1,2) have "dbv4_find_object objects (int i) = Some ob"
      by (simp add: dbv4_find_object_nat)
    from slot_cycle_reaches [OF wl this] that(1,3) show ?thesis by blast
  qed
  have mem: "\<exists>i < length objects. objects ! i = Some ob" if "Some ob \<in> set objects" for ob
    using that by (auto simp: in_set_conv_nth)
  from h consider
    (p) x where "(x, x) \<in> (v4_rel objects o4_parent)\<^sup>+"
    | (l) x where "(x, x) \<in> (v4_rel objects o4_location)\<^sup>+"
    | (s) ob where "Some ob \<in> set objects" "reaches_cycle objects o4_sibling (o4_child ob)"
    | (n) ob where "Some ob \<in> set objects" "reaches_cycle objects o4_next (o4_contents ob)"
    unfolding v4_has_cycle_def by blast
  then show "\<exists>oid < length objects. slot_cycle objects oid"
  proof cases
    case p
    from cycle_reached_from_field [OF p] obtain i ob where
      "i < length objects" "objects ! i = Some ob" "reaches_cycle objects o4_parent (o4_parent ob)"
      by blast
    then show ?thesis by (intro live [of i ob]) simp_all
  next
    case l
    from cycle_reached_from_field [OF l] obtain i ob where
      "i < length objects" "objects ! i = Some ob"
      "reaches_cycle objects o4_location (o4_location ob)"
      by blast
    then show ?thesis by (intro live [of i ob]) simp_all
  next
    case s
    from mem [OF s(1)] obtain i where "i < length objects" "objects ! i = Some ob" by blast
    with s(2) show ?thesis by (intro live [of i ob]) simp_all
  next
    case n
    from mem [OF n(1)] obtain i where "i < length objects" "objects ! i = Some ob" by blast
    with n(2) show ?thesis by (intro live [of i ob]) simp_all
  qed
qed

text \<open>
  C5, as the code has it.  Version 4: on the table that phase 1 leaves, phase 2 ends
  without a fault and sets \<open>broken\<close> exactly when the table has a cycle of the parent
  relation, a cycle of the location relation, a sibling chain that starts at the
  \<open>child\<close> of an object and runs into a cycle, or a \<open>next\<close> chain that starts at the
  \<open>contents\<close> of an object and runs into a cycle; the test that a walk exceeds the
  number of slots decides this exactly.  Live store: when \<open>db_ancestors\<close> and
  \<open>db_all_locations\<close> return the full sets of ancestors and of enclosing locations,
  phase 2 sets \<open>broken\<close> exactly when the parents relation or the location relation has
  a cycle.
\<close>

theorem validate_phase2_cycles:
  assumes "computes_closure db_ancestors st (ng_parent_rel st)"
    and "computes_closure db_all_locations st (ng_location_rel st)"
  shows "(\<exists>s2. v4_validate_phase2 (v4_validate_phase1 (v4_initial objects)) = Inr s2
            \<and> (vs_broken s2 \<longleftrightarrow>
                 v4_has_cycle (vs_objects (v4_validate_phase1 (v4_initial objects)))))
       \<and> (fst (ng_validate_phase2 db_ancestors db_all_locations st lg)
            \<longleftrightarrow> (\<exists>x. (x, x) \<in> (ng_parent_rel st)\<^sup>+) \<or> (\<exists>x. (x, x) \<in> (ng_location_rel st)\<^sup>+))"
proof
  let ?s1 = "v4_validate_phase1 (v4_initial objects)"
  have wl: "well_linked (vs_objects ?s1)"
    unfolding v4_validate_phase1_result(1) by (rule phase1_well_linked)
  have nb: "\<not> vs_broken ?s1"
    unfolding v4_validate_phase1_result(2) by (simp add: v4_initial_def)
  from v4_validate_phase2_result [OF wl] nb v4_slot_cycle_iff [OF wl]
  show "\<exists>s2. v4_validate_phase2 ?s1 = Inr s2
            \<and> (vs_broken s2 \<longleftrightarrow> v4_has_cycle (vs_objects ?s1))"
    by auto
next
  show "fst (ng_validate_phase2 db_ancestors db_all_locations st lg)
            \<longleftrightarrow> (\<exists>x. (x, x) \<in> (ng_parent_rel st)\<^sup>+) \<or> (\<exists>x. (x, x) \<in> (ng_location_rel st)\<^sup>+)"
    by (rule ng_validate_phase2_broken [OF assms])
qed

lemma find_store_loop:
  "dbpriv_find_object store_loop x = Some ob \<longleftrightarrow>
     (x = 0 \<and> ob = blank\<lparr>obj_id := 0, obj_location := VObj 1, obj_contents := VList [VObj 1]\<rparr>)
     \<or> (x = 1 \<and> ob = blank\<lparr>obj_id := 1, obj_location := VObj 0, obj_contents := VList [VObj 0]\<rparr>)"
proof -
  have "x < 0 \<or> x = 0 \<or> x = 1 \<or> 2 \<le> x" by arith
  then show ?thesis
    by (elim disjE) (auto simp: dbpriv_find_object_def store_loop_def)
qed

lemma fields_store_loop:
  assumes "dbpriv_find_object store_loop x = Some ob"
  shows "obj_parents ob = VObj NOTHING"
    and "x = 0 \<and> obj_location ob = VObj 1 \<or> x = 1 \<and> obj_location ob = VObj 0"
proof -
  from assms have "(x = 0 \<and> ob = blank\<lparr>obj_id := 0, obj_location := VObj 1, obj_contents := VList [VObj 1]\<rparr>)
     \<or> (x = 1 \<and> ob = blank\<lparr>obj_id := 1, obj_location := VObj 0, obj_contents := VList [VObj 0]\<rparr>)"
    by (simp only: find_store_loop)
  then show "obj_parents ob = VObj NOTHING"
    and "x = 0 \<and> obj_location ob = VObj 1 \<or> x = 1 \<and> obj_location ob = VObj 0"
    by (auto simp: blank_def)
qed

lemma parent_rel_store_loop: "ng_parent_rel store_loop = {}"
proof -
  have "False" if "(x, p) \<in> ng_parent_rel store_loop" for x p
  proof -
    from that obtain ob where ob: "dbpriv_find_object store_loop x = Some ob"
      "p \<in> parents_of ob" "p \<noteq> NOTHING"
      unfolding ng_parent_rel_def by blast
    from fields_store_loop(1) [OF ob(1)] ob(2,3) show False
      by (simp add: parents_of_def)
  qed
  then show ?thesis by auto
qed

lemma location_rel_store_loop: "ng_location_rel store_loop = {(0, 1), (1, 0)}"
proof (intro equalityI subsetI)
  fix e assume "e \<in> ng_location_rel store_loop"
  then obtain x l ob where e: "e = (x, l)" "dbpriv_find_object store_loop x = Some ob"
    "obj_location ob = VObj l"
    unfolding ng_location_rel_def by blast
  from fields_store_loop(2) [OF e(2)] e(1,3) show "e \<in> {(0, 1), (1, 0)}" by auto
next
  fix e :: "int \<times> int" assume "e \<in> {(0, 1), (1, 0)}"
  then consider "e = (0, 1)" | "e = (1, 0)" by blast
  then show "e \<in> ng_location_rel store_loop"
  proof cases
    case 1
    have "dbpriv_find_object store_loop 0
        = Some (blank\<lparr>obj_id := 0, obj_location := VObj 1, obj_contents := VList [VObj 1]\<rparr>)"
      by (simp add: find_store_loop)
    with 1 show ?thesis unfolding ng_location_rel_def by (simp add: NOTHING_def)
  next
    case 2
    have "dbpriv_find_object store_loop 1
        = Some (blank\<lparr>obj_id := 1, obj_location := VObj 0, obj_contents := VList [VObj 0]\<rparr>)"
      by (simp add: find_store_loop)
    with 2 show ?thesis unfolding ng_location_rel_def by (simp add: NOTHING_def)
  qed
qed

lemma trancl_two_cycle:
  fixes a b :: int
  shows "{p. (a, p) \<in> {(a, b), (b, a)}\<^sup>+} = {a, b}"
proof
  show "{p. (a, p) \<in> {(a, b), (b, a)}\<^sup>+} \<subseteq> {a, b}"
  proof
    fix p assume "p \<in> {p. (a, p) \<in> {(a, b), (b, a)}\<^sup>+}"
    then have "p \<in> Range ({(a, b), (b, a)}\<^sup>+)" by blast
    then show "p \<in> {a, b}" by (simp only: trancl_range) auto
  qed
next
  have 1: "(a, b) \<in> {(a, b), (b, a)}\<^sup>+" by blast
  have "(b, a) \<in> {(a, b), (b, a)}\<^sup>+" by blast
  with 1 have "(a, a) \<in> {(a, b), (b, a)}\<^sup>+" by (rule trancl_trans)
  with 1 show "{a, b} \<subseteq> {p. (a, p) \<in> {(a, b), (b, a)}\<^sup>+}" by blast
qed

lemma computes_closure_examples:
  "computes_closure ancestors_example store_loop (ng_parent_rel store_loop)"
  "computes_closure locations_example store_loop (ng_location_rel store_loop)"
proof -
  show "computes_closure ancestors_example store_loop (ng_parent_rel store_loop)"
    unfolding parent_rel_store_loop computes_closure_def
    by (simp add: ancestors_example_def)
  have 0: "{p. (0::int, p) \<in> {(0, 1), (1, 0)}\<^sup>+} = {0, 1}" by (rule trancl_two_cycle)
  have "{(0::int, 1::int), (1, 0)} = {(1, 0), (0, 1)}" by blast
  with trancl_two_cycle [of 1 0] have 1: "{p. (1::int, p) \<in> {(0, 1), (1, 0)}\<^sup>+} = {1, 0}"
    by simp
  show "computes_closure locations_example store_loop (ng_location_rel store_loop)"
    unfolding location_rel_store_loop computes_closure_def
    by (auto simp: find_store_loop locations_example_def 0 1)
qed

theorem validate_phase2_cycles_witness:
  "computes_closure ancestors_example store_loop (ng_parent_rel store_loop)
   \<and> computes_closure locations_example store_loop (ng_location_rel store_loop)
   \<and> (\<exists>s2. v4_validate_phase2 (v4_validate_phase1 (v4_initial table_tree)) = Inr s2
          \<and> (vs_broken s2 \<longleftrightarrow>
               v4_has_cycle (vs_objects (v4_validate_phase1 (v4_initial table_tree)))))
   \<and> fst (ng_validate_phase2 ancestors_example locations_example store_loop [])
   \<and> (0, 0) \<in> (ng_location_rel store_loop)\<^sup>+"
proof -
  have c: "(0, 0) \<in> (ng_location_rel store_loop)\<^sup>+"
    unfolding location_rel_store_loop using trancl_two_cycle [of 0 1] by blast
  from validate_phase2_cycles [OF computes_closure_examples, of table_tree "[]"]
    computes_closure_examples c
  show ?thesis by blast
qed

lemma find_sibling_loop:
  "dbv4_find_object table_sibling_loop x = Some ob \<longleftrightarrow>
     (x = 0 \<and> ob = blank4\<lparr>o4_id := 0, o4_child := 1\<rparr>)
     \<or> (x = 1 \<and> ob = blank4\<lparr>o4_id := 1, o4_sibling := 1\<rparr>)"
proof -
  have "x < 0 \<or> x = 0 \<or> x = 1 \<or> 2 \<le> x" by arith
  then show ?thesis
    by (elim disjE) (auto simp: dbv4_find_object_def table_sibling_loop_def)
qed

text \<open>
  C5, as stated, fails for version 4: the claim has phase 2 fail only for a cycle of
  the parent relation or of the location relation.  In the table below no object has a
  parent or a location, so neither relation has a cycle; but #1, the child of #0, is its
  own sibling, and phase 2 sets \<open>broken\<close>.
\<close>

theorem sibling_cycle_fails_phase2:
  "vs_objects (v4_validate_phase1 (v4_initial table_sibling_loop)) = table_sibling_loop
   \<and> (\<exists>s2. v4_validate_phase2 (v4_validate_phase1 (v4_initial table_sibling_loop)) = Inr s2
          \<and> vs_broken s2)
   \<and> \<not> (\<exists>x. (x, x) \<in> (v4_rel table_sibling_loop o4_parent)\<^sup>+)
   \<and> \<not> (\<exists>x. (x, x) \<in> (v4_rel table_sibling_loop o4_location)\<^sup>+)"
proof -
  let ?s1 = "v4_validate_phase1 (v4_initial table_sibling_loop)"
  have o1: "vs_objects ?s1 = table_sibling_loop"
    unfolding v4_validate_phase1_result(1)
    by (simp add: v4_initial_def table_sibling_loop_def v4_repaired_def keep_valid_def
        dangling_def blank4_def dbv4_find_object_def NOTHING_def)
  have nb: "\<not> vs_broken ?s1"
    unfolding v4_validate_phase1_result(2) by (simp add: v4_initial_def)
  have wl: "well_linked (vs_objects ?s1)"
    unfolding v4_validate_phase1_result(1) by (rule phase1_well_linked)
  have p: "v4_rel table_sibling_loop o4_parent = {}"
    by (auto simp: v4_rel_def find_sibling_loop blank4_def)
  have l: "v4_rel table_sibling_loop o4_location = {}"
    by (auto simp: v4_rel_def find_sibling_loop blank4_def)
  have "(1, 1) \<in> v4_rel table_sibling_loop o4_sibling"
    by (simp add: v4_rel_def find_sibling_loop blank4_def NOTHING_def)
  then have "reaches_cycle table_sibling_loop o4_sibling 1"
    unfolding reaches_cycle_def by (auto simp: NOTHING_def)
  moreover have "Some (blank4\<lparr>o4_id := 0, o4_child := 1\<rparr>) \<in> set table_sibling_loop"
    by (simp add: table_sibling_loop_def)
  ultimately have "\<exists>ob. Some ob \<in> set table_sibling_loop
      \<and> reaches_cycle table_sibling_loop o4_sibling (o4_child ob)"
    by (intro exI [of _ "blank4\<lparr>o4_id := 0, o4_child := 1\<rparr>"]) simp
  then have "v4_has_cycle table_sibling_loop"
    unfolding v4_has_cycle_def by blast
  with v4_validate_phase2_result [OF wl] v4_slot_cycle_iff [OF wl] o1
  have "\<exists>s2. v4_validate_phase2 ?s1 = Inr s2 \<and> vs_broken s2" by auto
  with o1 p l show ?thesis by simp
qed

section \<open>A second run of phase 1 of version 4\<close>

lemmas table_eval = v4_repaired_def keep_valid_def dangling_def dbv4_find_object_def
  blank4_def NOTHING_def fixable_def fix_next_def v4_initial_def

lemma first_run:
  "vs_objects (v4_validate_phase1 (v4_initial table_stale_next)) = table_once"
  "vs_fixed_nexts (v4_validate_phase1 (v4_initial table_stale_next)) = 0"
  unfolding v4_validate_phase1_result
  by (simp_all add: table_stale_next_def table_once_def table_eval)

lemma second_run:
  "vs_objects (v4_validate_phase1 (v4_initial table_once)) = table_twice"
  "vs_fixed_nexts (v4_validate_phase1 (v4_initial table_once)) = 1"
  unfolding v4_validate_phase1_result
  by (simp_all add: table_once_def table_twice_def table_eval)

lemma first_run_passes_phase2:
  "\<exists>s2. v4_validate_phase2 (v4_validate_phase1 (v4_initial table_stale_next)) = Inr s2
     \<and> \<not> vs_broken s2"
proof -
  let ?s1 = "v4_validate_phase1 (v4_initial table_stale_next)"
  have wl: "well_linked (vs_objects ?s1)"
    unfolding v4_validate_phase1_result(1) by (rule phase1_well_linked)
  have nb: "\<not> vs_broken ?s1"
    unfolding v4_validate_phase1_result(2) by (simp add: v4_initial_def)
  have l: "length table_once = 2" by (simp add: table_once_def)
  have f: "dbv4_find_object table_once (int 0) = Some (blank4\<lparr>o4_id := 0, o4_next := 1\<rparr>)"
    "dbv4_find_object table_once (int 1) = Some (blank4\<lparr>o4_id := 1\<rparr>)"
    by (simp_all add: dbv4_find_object_def table_once_def)
  have 0: "\<not> object_cycle table_once (blank4\<lparr>o4_id := 0, o4_next := 1\<rparr>)"
    by (rule not_object_cycle [of _ _ "[]" "[]" "[]" "[]"]) (simp_all add: v4_chain_list_eval)
  have 1: "\<not> object_cycle table_once (blank4\<lparr>o4_id := 1\<rparr>)"
    by (rule not_object_cycle [of _ _ "[]" "[]" "[]" "[]"]) (simp_all add: v4_chain_list_eval)
  have s0: "\<not> slot_cycle table_once 0" unfolding slot_cycle_def f option.case by (rule 0)
  have s1: "\<not> slot_cycle table_once 1" unfolding slot_cycle_def f option.case by (rule 1)
  have nc: "\<not> (\<exists>oid < length table_once. slot_cycle table_once oid)"
  proof
    assume "\<exists>oid < length table_once. slot_cycle table_once oid"
    then obtain oid where oid: "oid < 2" "slot_cycle table_once oid" unfolding l by blast
    from oid(1) have "oid = 0 \<or> oid = 1" by arith
    with oid(2) s0 s1 show False by blast
  qed
  from v4_validate_phase2_result [OF wl] nb nc first_run(1) show ?thesis by auto
qed

text \<open>
  C7.  The claim is that a second run of the validator repairs nothing and logs no
  error.  Phase 1 of version 4 tests "location is \<open>NOTHING\<close> and \<open>next\<close> is not"
  before it checks the location itself.  For #0 of the table below the first run sets
  the location, which names no object, to \<open>NOTHING\<close> and leaves \<open>next\<close> = #1; it counts
  no should-be-null \<open>next\<close>, and phase 2 finds no cycle.  A second run on the table
  that the first has left sets \<open>next\<close> to \<open>NOTHING\<close>, counts one repair and logs it.
\<close>

theorem v4_second_run_repairs:
  "vs_objects (v4_validate_phase1 (v4_initial table_stale_next)) = table_once
   \<and> vs_fixed_nexts (v4_validate_phase1 (v4_initial table_stale_next)) = 0
   \<and> (\<exists>s2. v4_validate_phase2 (v4_validate_phase1 (v4_initial table_stale_next)) = Inr s2
          \<and> \<not> vs_broken s2)
   \<and> vs_objects (v4_validate_phase1 (v4_initial table_once)) = table_twice
   \<and> table_twice \<noteq> table_once
   \<and> vs_fixed_nexts (v4_validate_phase1 (v4_initial table_once)) = 1
   \<and> errlog ''VALIDATE: Fixed %d should-be-null next pointer(s) ...'' [LInt 1]
        \<in> set (vs_log (v4_validate_phase1 (v4_initial table_once)))"
proof -
  have d: "table_twice \<noteq> table_once"
    by (simp add: table_twice_def table_once_def blank4_def NOTHING_def)
  have "errlog ''VALIDATE: Fixed %d should-be-null next pointer(s) ...'' [LInt 1]
        \<in> set (vs_log (v4_validate_phase1 (v4_initial table_once)))"
    by (subst v4_validate_phase1_result(4)) (simp add: second_run(2))
  with first_run second_run first_run_passes_phase2 d show ?thesis by blast
qed

end
